theory Spec2Isabelle
  imports Main
begin

section \<open>JavaScript values used by the module\<close>

text \<open>
  The module \<^verbatim>\<open>05-objects-tasks.js\<close> throws plain \<^verbatim>\<open>Error\<close> objects carrying a message;
  the host library throws \<^verbatim>\<open>TypeError\<close> and \<^verbatim>\<open>SyntaxError\<close>.  A method call either returns
  normally or completes by throwing.  Arguments of the selector methods are strings.
\<close>

datatype js_error = Error string | TypeError | SyntaxError

datatype completion = Normal | Throw js_error

text \<open>
  A JavaScript string is falsy exactly when it is empty, and \<^verbatim>\<open>undefined\<close> (a missing
  property, \<open>None\<close>) is falsy.
\<close>

fun truthy :: "string option \<Rightarrow> bool" where
  "truthy None = False"
| "truthy (Some s) = (s \<noteq> [])"

text \<open>
  An object whose property names are array indices (\<^verbatim>\<open>this.selector[1]\<close> ...
  \<^verbatim>\<open>this.selector[6]\<close>) enumerates its properties in ascending numeric order, whatever the
  order of the assignments.  Such an object is an association list kept in ascending key
  order: \<open>get_prop\<close> reads a property, \<open>set_prop\<close> assigns one, \<open>Object_values\<close> is
  \<^verbatim>\<open>Object.values\<close>.
\<close>

type_synonym js_object = "(nat \<times> string) list"

definition get_prop :: "js_object \<Rightarrow> nat \<Rightarrow> string option" where
  "get_prop obj k = map_of obj k"

fun set_prop :: "js_object \<Rightarrow> nat \<Rightarrow> string \<Rightarrow> js_object" where
  "set_prop [] k v = [(k, v)]"
| "set_prop ((k', v') # ps) k v =
     (if k < k' then (k, v) # (k', v') # ps
      else if k = k' then (k, v) # ps
      else (k', v') # set_prop ps k v)"

definition Object_values :: "js_object \<Rightarrow> string list" where
  "Object_values obj = map snd obj"

text \<open>\<^verbatim>\<open>Array.prototype.indexOf\<close>: the first index of the element, or \<open>-1\<close>.\<close>

fun indexOf :: "'a list \<Rightarrow> 'a \<Rightarrow> int" where
  "indexOf [] x = -1"
| "indexOf (y # ys) x =
     (if y = x then 0 else (let i = indexOf ys x in if i < 0 then -1 else i + 1))"

text \<open>\<^verbatim>\<open>Array.prototype.join\<close> on an array of strings.\<close>

fun join :: "string \<Rightarrow> string list \<Rightarrow> string" where
  "join sep [] = []"
| "join sep [x] = x"
| "join sep (x # y # ys) = x @ sep @ join sep (y # ys)"

section \<open>The class \<^verbatim>\<open>NEWcssSelectorBuilder\<close>\<close>

record NEWcssSelectorBuilder =
  selector :: js_object
  order :: "string list"

text \<open>The constructor: \<^verbatim>\<open>this.selector = {}; this.order = [];\<close>\<close>

definition new_NEWcssSelectorBuilder :: NEWcssSelectorBuilder where
  "new_NEWcssSelectorBuilder = \<lparr>selector = [], order = []\<rparr>"

definition order_message :: string where
  "order_message = ''Selector parts should be arranged in the following order: element, id, class, attribute, pseudo-class, pseudo-element''"

definition duplicate_message :: string where
  "duplicate_message = ''Element, id and pseudo-element should not occur more then one time inside the selector''"

definition check_list :: "string list" where
  "check_list = [''element'', ''id'', ''class'', ''attr'', ''pseudoClass'', ''pseudoElement'']"

text \<open>
  \<^verbatim>\<open>this.order[length - 1]\<close> is \<^verbatim>\<open>undefined\<close> on the empty array, and
  \<^verbatim>\<open>check.indexOf(undefined)\<close> is \<open>-1\<close>.
\<close>

definition prev_of :: "NEWcssSelectorBuilder \<Rightarrow> string option" where
  "prev_of this = (if order this = [] then None else Some (last (order this)))"

definition indexPrev_of :: "NEWcssSelectorBuilder \<Rightarrow> int" where
  "indexPrev_of this = (case prev_of this of None \<Rightarrow> -1 | Some prev \<Rightarrow> indexOf check_list prev)"

text \<open>
  Every method returns how it completed together with the state of \<^verbatim>\<open>this\<close> after the
  call, so that a mutation made before a \<^verbatim>\<open>throw\<close> stays visible.
\<close>

definition check :: "string \<Rightarrow> NEWcssSelectorBuilder \<Rightarrow> completion \<times> NEWcssSelectorBuilder" where
  "check value this =
     (let indexPrev = indexPrev_of this;
          indexCurrent = indexOf check_list value
      in if indexPrev \<ge> 0 \<and> indexPrev > indexCurrent then (Throw (Error order_message), this)
         else if indexPrev < indexCurrent then (Normal, this\<lparr>order := order this @ [value]\<rparr>)
         else (Normal, this))"

definition element :: "string \<Rightarrow> NEWcssSelectorBuilder \<Rightarrow> completion \<times> NEWcssSelectorBuilder" where
  "element value this =
     (case check ''element'' this of
        (Throw e, this') \<Rightarrow> (Throw e, this')
      | (Normal, this') \<Rightarrow>
          if \<not> truthy (get_prop (selector this') 1)
          then (Normal, this'\<lparr>selector := set_prop (selector this') 1 value\<rparr>)
          else (Throw (Error duplicate_message), this'))"

definition id_sel :: "string \<Rightarrow> NEWcssSelectorBuilder \<Rightarrow> completion \<times> NEWcssSelectorBuilder" where
  "id_sel value this =
     (case check ''id'' this of
        (Throw e, this') \<Rightarrow> (Throw e, this')
      | (Normal, this') \<Rightarrow>
          if \<not> truthy (get_prop (selector this') 2)
          then (Normal, this'\<lparr>selector := set_prop (selector this') 2 (''#'' @ value)\<rparr>)
          else (Throw (Error duplicate_message), this'))"

definition class_sel :: "string \<Rightarrow> NEWcssSelectorBuilder \<Rightarrow> completion \<times> NEWcssSelectorBuilder" where
  "class_sel value this =
     (case check ''class'' this of
        (Throw e, this') \<Rightarrow> (Throw e, this')
      | (Normal, this') \<Rightarrow>
          if \<not> truthy (get_prop (selector this') 3)
          then (Normal, this'\<lparr>selector := set_prop (selector this') 3 (''.'' @ value)\<rparr>)
          else (Normal, this'\<lparr>selector :=
                  set_prop (selector this') 3 (the (get_prop (selector this') 3) @ ''.'' @ value)\<rparr>))"

definition attr :: "string \<Rightarrow> NEWcssSelectorBuilder \<Rightarrow> completion \<times> NEWcssSelectorBuilder" where
  "attr value this =
     (case check ''attr'' this of
        (Throw e, this') \<Rightarrow> (Throw e, this')
      | (Normal, this') \<Rightarrow>
          if \<not> truthy (get_prop (selector this') 4)
          then (Normal, this'\<lparr>selector := set_prop (selector this') 4 (''['' @ value @ '']'')\<rparr>)
          else (Normal, this'\<lparr>selector :=
                  set_prop (selector this') 4 (the (get_prop (selector this') 4) @ ''['' @ value @ '']'')\<rparr>))"

definition pseudoClass :: "string \<Rightarrow> NEWcssSelectorBuilder \<Rightarrow> completion \<times> NEWcssSelectorBuilder" where
  "pseudoClass value this =
     (case check ''pseudoClass'' this of
        (Throw e, this') \<Rightarrow> (Throw e, this')
      | (Normal, this') \<Rightarrow>
          if \<not> truthy (get_prop (selector this') 5)
          then (Normal, this'\<lparr>selector := set_prop (selector this') 5 ('':'' @ value)\<rparr>)
          else (Normal, this'\<lparr>selector :=
                  set_prop (selector this') 5 (the (get_prop (selector this') 5) @ '':'' @ value)\<rparr>))"

definition pseudoElement :: "string \<Rightarrow> NEWcssSelectorBuilder \<Rightarrow> completion \<times> NEWcssSelectorBuilder" where
  "pseudoElement value this =
     (case check ''pseudoElement'' this of
        (Throw e, this') \<Rightarrow> (Throw e, this')
      | (Normal, this') \<Rightarrow>
          if \<not> truthy (get_prop (selector this') 6)
          then (Normal, this'\<lparr>selector := set_prop (selector this') 6 (''::'' @ value)\<rparr>)
          else (Throw (Error duplicate_message), this'))"

text \<open>\<^verbatim>\<open>stringify\<close> returns the string; \<^verbatim>\<open>this\<close> is handed back as the method leaves it.\<close>

definition stringify :: "NEWcssSelectorBuilder \<Rightarrow> string \<times> NEWcssSelectorBuilder" where
  "stringify this = (let value = Object_values (selector this) in (join [] value, this))"

subsection \<open>The six categories\<close>

text \<open>
  The six category methods differ in the name they pass to \<^verbatim>\<open>check\<close>, in the property of
  \<^verbatim>\<open>this.selector\<close> they write and in the text they store.  \<open>call\<close> dispatches on the
  category, \<open>category_name\<close> is the argument of \<^verbatim>\<open>check\<close>, \<open>slot\<close> the property key,
  \<open>canonical_index\<close> the position of the name in the array \<^verbatim>\<open>check\<close>, and \<open>fragment\<close> the
  template literal of the method.
\<close>

datatype category = Element | Id | Class | Attr | PseudoClass | PseudoElement

fun category_name :: "category \<Rightarrow> string" where
  "category_name Element = ''element''"
| "category_name Id = ''id''"
| "category_name Class = ''class''"
| "category_name Attr = ''attr''"
| "category_name PseudoClass = ''pseudoClass''"
| "category_name PseudoElement = ''pseudoElement''"

fun slot :: "category \<Rightarrow> nat" where
  "slot Element = 1"
| "slot Id = 2"
| "slot Class = 3"
| "slot Attr = 4"
| "slot PseudoClass = 5"
| "slot PseudoElement = 6"

fun fragment :: "category \<Rightarrow> string \<Rightarrow> string" where
  "fragment Element value = value"
| "fragment Id value = ''#'' @ value"
| "fragment Class value = ''.'' @ value"
| "fragment Attr value = ''['' @ value @ '']''"
| "fragment PseudoClass value = '':'' @ value"
| "fragment PseudoElement value = ''::'' @ value"

fun call :: "category \<Rightarrow> string \<Rightarrow> NEWcssSelectorBuilder \<Rightarrow> completion \<times> NEWcssSelectorBuilder" where
  "call Element = element"
| "call Id = id_sel"
| "call Class = class_sel"
| "call Attr = attr"
| "call PseudoClass = pseudoClass"
| "call PseudoElement = pseudoElement"

definition canonical_index :: "category \<Rightarrow> int" where
  "canonical_index c = indexOf check_list (category_name c)"

definition canonical_order :: "category list" where
  "canonical_order = [Element, Id, Class, Attr, PseudoClass, PseudoElement]"

fun singleton_category :: "category \<Rightarrow> bool" where
  "singleton_category Element = True"
| "singleton_category Id = True"
| "singleton_category PseudoElement = True"
| "singleton_category _ = False"

definition stored :: "NEWcssSelectorBuilder \<Rightarrow> category \<Rightarrow> string option" where
  "stored this c = get_prop (selector this) (slot c)"

text \<open>
  A fluent chain \<^verbatim>\<open>b.c1(v1).c2(v2)...\<close> stops at the first call that throws.  \<open>attempts\<close>
  makes every call of the list on the same object and goes on after a throw, as a caller
  that catches the exception and keeps the object does.
\<close>

fun chain :: "(category \<times> string) list \<Rightarrow> NEWcssSelectorBuilder \<Rightarrow> completion \<times> NEWcssSelectorBuilder" where
  "chain [] this = (Normal, this)"
| "chain ((c, v) # cs) this =
     (case call c v this of
        (Throw e, this') \<Rightarrow> (Throw e, this')
      | (Normal, this') \<Rightarrow> chain cs this')"

fun attempts :: "(category \<times> string) list \<Rightarrow> NEWcssSelectorBuilder \<Rightarrow> NEWcssSelectorBuilder" where
  "attempts [] this = this"
| "attempts ((c, v) # cs) this = attempts cs (snd (call c v this))"

section \<open>The facade \<^verbatim>\<open>cssSelectorBuilder\<close>\<close>

record cssSelectorBuilder =
  combiner :: "string list"

definition cssSelectorBuilder_loaded :: cssSelectorBuilder where
  "cssSelectorBuilder_loaded = \<lparr>combiner = []\<rparr>"

text \<open>Each entry method builds a new \<^verbatim>\<open>NEWcssSelectorBuilder\<close> and makes the call on it.\<close>

definition facade_call :: "category \<Rightarrow> string \<Rightarrow> completion \<times> NEWcssSelectorBuilder" where
  "facade_call c value = call c value new_NEWcssSelectorBuilder"

text \<open>
  An operand of \<^verbatim>\<open>combine\<close> is a chain object or the facade itself, which an inner
  \<^verbatim>\<open>combine\<close> returned.  A chain has the property \<^verbatim>\<open>selector\<close> (an object, hence truthy);
  on the facade \<^verbatim>\<open>.selector\<close> is \<^verbatim>\<open>undefined\<close>.  The combinator is a string, or
  \<^verbatim>\<open>undefined\<close> (\<open>None\<close>) when the argument is left out.
\<close>

datatype operand = Chain NEWcssSelectorBuilder | Facade

fun operand_selector :: "operand \<Rightarrow> js_object option" where
  "operand_selector (Chain b) = Some (selector b)"
| "operand_selector Facade = None"

definition combine :: "operand \<Rightarrow> string option \<Rightarrow> operand \<Rightarrow> cssSelectorBuilder \<Rightarrow> operand \<times> cssSelectorBuilder" where
  "combine selector1 combinator selector2 this =
     (let currentValue0 = [];
          currentValue1 = (case operand_selector selector1 of
                             Some sel \<Rightarrow> currentValue0 @ [join [] (Object_values sel)]
                           | None \<Rightarrow> currentValue0);
          currentValue2 = (if truthy combinator then currentValue1 @ [the combinator]
                           else currentValue1);
          currentValue3 = (case operand_selector selector2 of
                             Some sel \<Rightarrow> currentValue2 @ [join [] (Object_values sel)]
                           | None \<Rightarrow> currentValue2)
      in (Facade, this\<lparr>combiner := currentValue3 @ combiner this\<rparr>))"

definition facade_stringify :: "cssSelectorBuilder \<Rightarrow> string \<times> cssSelectorBuilder" where
  "facade_stringify this = (let arrRes = join '' '' (combiner this) in (arrRes, this\<lparr>combiner := []\<rparr>))"

section \<open>Notions used in the statements\<close>

text \<open>
  Two invariants of the chains that the methods build: a category with a truthy fragment
  (\<open>order_inv\<close>), or with any fragment (\<open>keys_inv\<close>), has a canonical index that is at
  most the index recorded last.  \<open>selector_inv\<close> says that \<^verbatim>\<open>this.selector\<close> has its keys
  in ascending order, as every object has, and among the six keys of the methods.
\<close>

definition order_inv :: "NEWcssSelectorBuilder \<Rightarrow> bool" where
  "order_inv this = (\<forall>c. truthy (stored this c) \<longrightarrow> canonical_index c \<le> indexPrev_of this)"

definition keys_inv :: "NEWcssSelectorBuilder \<Rightarrow> bool" where
  "keys_inv this = (\<forall>c. stored this c \<noteq> None \<longrightarrow> canonical_index c \<le> indexPrev_of this)"

definition selector_inv :: "js_object \<Rightarrow> bool" where
  "selector_inv obj = (sorted_wrt (<) (map fst obj) \<and> set (map fst obj) \<subseteq> set (map slot canonical_order))"

text \<open>
  What \<^verbatim>\<open>combine\<close> prepends for an operand and for the token: a chain gives one piece,
  its fragments concatenated in canonical order; the facade gives none; the token gives
  one piece unless it is missing or empty.
\<close>

fun operand_pieces :: "operand \<Rightarrow> string list" where
  "operand_pieces (Chain b) = [concat (List.map_filter (stored b) canonical_order)]"
| "operand_pieces Facade = []"

fun token_pieces :: "string option \<Rightarrow> string list" where
  "token_pieces None = []"
| "token_pieces (Some t) = (if t = [] then [] else [t])"

fun operand_inv :: "operand \<Rightarrow> bool" where
  "operand_inv (Chain b) = selector_inv (selector b)"
| "operand_inv Facade = True"

text \<open>
  The pieces in the words of the specification, to compare \<^verbatim>\<open>combine\<close> with: the rendering
  of the left operand if it is not empty, the token if one is given, the rendering of
  the right operand if it is not empty.
\<close>

definition rendered :: "operand \<Rightarrow> string" where
  "rendered x = (case x of Chain b \<Rightarrow> fst (stringify b) | Facade \<Rightarrow> [])"

definition pieces_as_specified :: "operand \<Rightarrow> string option \<Rightarrow> operand \<Rightarrow> string list" where
  "pieces_as_specified left token right =
     (if rendered left \<noteq> [] then [rendered left] else [])
     @ (case token of Some t \<Rightarrow> [t] | None \<Rightarrow> [])
     @ (if rendered right \<noteq> [] then [rendered right] else [])"

section \<open>JSON helpers\<close>

subsection \<open>Strings and values\<close>

text \<open>
  The strings that \<^verbatim>\<open>JSON.stringify\<close> writes and \<^verbatim>\<open>JSON.parse\<close> reads are sequences of
  UTF-16 code units, the numbers below 65536.  \<open>code c\<close> is the code unit of a character
  below 256 and \<open>utf16 s\<close> the string of such characters.
\<close>

type_synonym code_unit = nat

type_synonym js_string = "code_unit list"

abbreviation code :: "char \<Rightarrow> code_unit" where
  "code \<equiv> of_char"

definition utf16 :: "string \<Rightarrow> js_string" where
  "utf16 s = map of_char s"

text \<open>
  The values that \<^verbatim>\<open>JSON.parse\<close> can produce: \<^verbatim>\<open>null\<close>, booleans, numbers, strings, arrays
  and plain objects.  Arrays and objects carry their prototype; \<^verbatim>\<open>JSON.parse\<close> creates them
  with \<^verbatim>\<open>Array.prototype\<close> and \<^verbatim>\<open>Object.prototype\<close>, and \<open>Given p\<close> is a prototype object
  \<open>p\<close> supplied by the caller.  The fields of an object are listed in the order in which
  the host enumerates them.  The type \<open>'n\<close> of the numbers is a parameter.
\<close>

datatype 'p prototype = Object_prototype | Array_prototype | Given 'p

datatype ('n, 'p) js_value =
    JNull
  | JBoolean bool
  | JNumber 'n
  | JString js_string
  | JArray "'p prototype" "('n, 'p) js_value list"
  | JObject "'p prototype" "(js_string \<times> ('n, 'p) js_value) list"

fun is_object :: "('n, 'p) js_value \<Rightarrow> bool" where
  "is_object (JArray p xs) = True"
| "is_object (JObject p fs) = True"
| "is_object _ = False"

fun prototype_of :: "('n, 'p) js_value \<Rightarrow> 'p prototype option" where
  "prototype_of (JArray p xs) = Some p"
| "prototype_of (JObject p fs) = Some p"
| "prototype_of _ = None"

subsection \<open>Host functions\<close>

text \<open>
  \<^verbatim>\<open>Object.setPrototypeOf(O, proto)\<close> with an object as \<^verbatim>\<open>proto\<close> (ECMA-262, 20.1.2.23):
  it throws a \<^verbatim>\<open>TypeError\<close> when \<^verbatim>\<open>O\<close> is \<^verbatim>\<open>null\<close> or \<^verbatim>\<open>undefined\<close>, returns \<^verbatim>\<open>O\<close>
  unchanged when \<^verbatim>\<open>O\<close> is another primitive, and otherwise sets the prototype of the
  (ordinary, extensible) object \<^verbatim>\<open>O\<close> and returns it.
\<close>

fun Object_setPrototypeOf :: "('n, 'p) js_value \<Rightarrow> 'p \<Rightarrow> js_error + ('n, 'p) js_value" where
  "Object_setPrototypeOf JNull proto = Inl TypeError"
| "Object_setPrototypeOf (JBoolean b) proto = Inr (JBoolean b)"
| "Object_setPrototypeOf (JNumber n) proto = Inr (JNumber n)"
| "Object_setPrototypeOf (JString s) proto = Inr (JString s)"
| "Object_setPrototypeOf (JArray p xs) proto = Inr (JArray (Given proto) xs)"
| "Object_setPrototypeOf (JObject p fs) proto = Inr (JObject (Given proto) fs)"

text \<open>
  The numbers of the host enter \<^verbatim>\<open>JSON.stringify\<close> and \<^verbatim>\<open>JSON.parse\<close> through three
  functions: the test \<^verbatim>\<open>isFinite\<close>, the decimal text of a finite number
  (\<^verbatim>\<open>Number::toString\<close>, ECMA-262, 6.1.6.1.20) and the number that a JSON number literal
  denotes (\<^verbatim>\<open>StringToNumber\<close>, ECMA-262, 7.1.4.1.1).  Floating-point arithmetic is not
  modelled: the three functions are parameters, and either conversion may leave an
  argument unanswered (\<open>None\<close>) where a model of the numbers does not reach.
\<close>

record 'n number_host =
  isFinite :: "'n \<Rightarrow> bool"
  Number_toString :: "'n \<Rightarrow> js_string option"
  StringToNumber :: "js_string \<Rightarrow> 'n option"

text \<open>Decimal digits.\<close>

definition is_digit :: "code_unit \<Rightarrow> bool" where
  "is_digit c = (code CHR ''0'' \<le> c \<and> c \<le> code CHR ''9'')"

definition digit_value :: "code_unit \<Rightarrow> nat" where
  "digit_value c = c - code CHR ''0''"

definition digit_char :: "nat \<Rightarrow> code_unit" where
  "digit_char d = code CHR ''0'' + d"

function show_nat :: "nat \<Rightarrow> js_string" where
  "show_nat n = (if n < 10 then [digit_char n] else show_nat (n div 10) @ [digit_char (n mod 10)])"
  by pat_completeness auto
termination
  by (relation "measure id") auto

declare show_nat.simps [simp del]

definition show_int :: "int \<Rightarrow> js_string" where
  "show_int n = (if n < 0 then code CHR ''-'' # show_nat (nat (- n)) else show_nat (nat n))"

fun read_digits :: "nat \<Rightarrow> js_string \<Rightarrow> nat \<times> js_string" where
  "read_digits acc [] = (acc, [])"
| "read_digits acc (c # cs) =
     (if is_digit c then read_digits (10 * acc + digit_value c) cs else (acc, c # cs))"

text \<open>
  The numbers of the module's examples are integers.  \<open>integers\<close> is the host on the
  integers that a double holds exactly and prints with all their digits, those of
  absolute value at most \<open>2^53\<close>: it leaves unanswered an integer beyond and a literal
  with a fraction or an exponent, the literal \<^verbatim>\<open>-0\<close> and a literal of an integer beyond.
\<close>

definition safe_integer :: "int \<Rightarrow> bool" where
  "safe_integer n = (\<bar>n\<bar> \<le> 2 ^ 53)"

definition integer_of_literal :: "js_string \<Rightarrow> int option" where
  "integer_of_literal l =
     (let negative = (l \<noteq> [] \<and> hd l = code CHR ''-'');
          ds = (if negative then tl l else l);
          n = int (fst (read_digits 0 ds))
      in if ds \<noteq> [] \<and> list_all is_digit ds \<and> \<not> (negative \<and> n = 0) \<and> safe_integer n
         then Some (if negative then - n else n)
         else None)"

definition integers :: "int number_host" where
  "integers =
     \<lparr>isFinite = (\<lambda>n. True),
      Number_toString = (\<lambda>n. if safe_integer n then Some (show_int n) else None),
      StringToNumber = integer_of_literal\<rparr>"










text \<open>
  \<^verbatim>\<open>JSON.parse(text)\<close> (ECMA-262, 25.5.1) first checks the text against the JSON grammar
  (ECMA-404) and throws a \<^verbatim>\<open>SyntaxError\<close> when the text is not valid; it then evaluates the
  text.  The first step is a recursive descent that returns the syntax of the text: the
  tree of its values, with every number as its literal and every string decoded.  A
  parser returns what it has read and the rest of the text, or \<open>Malformed\<close> where the
  text leaves the grammar; \<open>Exhausted\<close> is the end of the fuel of the recursion.
\<close>

datatype json_syntax =
    SNull
  | SBoolean bool
  | SNumber js_string
  | SString js_string
  | SArray "json_syntax list"
  | SObject "(js_string \<times> json_syntax) list"

datatype 'a parsed = Parsed 'a js_string | Malformed | Exhausted

fun map_parsed :: "('a \<Rightarrow> 'b) \<Rightarrow> 'a parsed \<Rightarrow> 'b parsed" where
  "map_parsed f (Parsed x rest) = Parsed (f x) rest"
| "map_parsed f Malformed = Malformed"
| "map_parsed f Exhausted = Exhausted"

definition is_ws :: "code_unit \<Rightarrow> bool" where
  "is_ws c = (c = 0x20 \<or> c = 0x09 \<or> c = 0x0A \<or> c = 0x0D)"

fun skip_ws :: "js_string \<Rightarrow> js_string" where
  "skip_ws [] = []"
| "skip_ws (c # cs) = (if is_ws c then skip_ws cs else c # cs)"

definition hex_value :: "code_unit \<Rightarrow> nat option" where
  "hex_value c =
     (if is_digit c then Some (c - code CHR ''0'')
      else if code CHR ''a'' \<le> c \<and> c \<le> code CHR ''f'' then Some (c - code CHR ''a'' + 10)
      else if code CHR ''A'' \<le> c \<and> c \<le> code CHR ''F'' then Some (c - code CHR ''A'' + 10)
      else None)"

definition escape_value :: "code_unit \<Rightarrow> code_unit option" where
  "escape_value e =
     (if e = code CHR 0x22 then Some 0x22
      else if e = code CHR 0x5C then Some 0x5C
      else if e = code CHR ''/'' then Some 0x2F
      else if e = code CHR ''b'' then Some 0x08
      else if e = code CHR ''f'' then Some 0x0C
      else if e = code CHR ''n'' then Some 0x0A
      else if e = code CHR ''r'' then Some 0x0D
      else if e = code CHR ''t'' then Some 0x09
      else None)"

text \<open>The characters of a string after its opening quotation mark.\<close>

fun parse_chars :: "js_string \<Rightarrow> js_string parsed" where
  "parse_chars [] = Malformed"
| "parse_chars (c # cs) =
     (if c = code CHR 0x22 then Parsed [] cs
      else if c = code CHR 0x5C then
        (case cs of
           [] \<Rightarrow> Malformed
         | e # es \<Rightarrow>
             if e = code CHR ''u'' then
               (case es of
                  h1 # h2 # h3 # h4 # rest \<Rightarrow>
                    (case (hex_value h1, hex_value h2, hex_value h3, hex_value h4) of
                       (Some d1, Some d2, Some d3, Some d4) \<Rightarrow>
                         map_parsed (Cons (4096 * d1 + 256 * d2 + 16 * d3 + d4)) (parse_chars rest)
                     | _ \<Rightarrow> Malformed)
                | _ \<Rightarrow> Malformed)
             else
               (case escape_value e of
                  None \<Rightarrow> Malformed
                | Some x \<Rightarrow> map_parsed (Cons x) (parse_chars es)))
      else if c < 0x20 then Malformed
      else map_parsed (Cons c) (parse_chars cs))"

text \<open>
  A number: \<^verbatim>\<open>-? (0 | [1-9][0-9]*) (. [0-9]+)? ([eE] [+-]? [0-9]+)?\<close>.  The scanners return
  the text after the part they read, \<open>None\<close> where the text leaves the grammar.
\<close>

definition scan_fraction :: "js_string \<Rightarrow> js_string option" where
  "scan_fraction s =
     (case s of
        [] \<Rightarrow> Some s
      | c # cs \<Rightarrow>
          if c = code CHR ''.'' then
            (case cs of
               [] \<Rightarrow> None
             | d # ds \<Rightarrow> if is_digit d then Some (dropWhile is_digit ds) else None)
          else Some s)"

definition scan_exponent :: "js_string \<Rightarrow> js_string option" where
  "scan_exponent s =
     (case s of
        [] \<Rightarrow> Some s
      | c # cs \<Rightarrow>
          if c = code CHR ''e'' \<or> c = code CHR ''E'' then
            (case (case cs of
                     [] \<Rightarrow> []
                   | g # gs \<Rightarrow> if g = code CHR ''+'' \<or> g = code CHR ''-'' then gs else cs) of
               [] \<Rightarrow> None
             | d # ds \<Rightarrow> if is_digit d then Some (dropWhile is_digit ds) else None)
          else Some s)"

definition scan_number :: "js_string \<Rightarrow> js_string option" where
  "scan_number s =
     (case (case s of [] \<Rightarrow> [] | g # gs \<Rightarrow> if g = code CHR ''-'' then gs else s) of
        [] \<Rightarrow> None
      | c # cs \<Rightarrow>
          if \<not> is_digit c then None
          else (case scan_fraction (if c = code CHR ''0'' then cs else dropWhile is_digit cs) of
                  None \<Rightarrow> None
                | Some rest \<Rightarrow> scan_exponent rest))"

definition parse_number :: "js_string \<Rightarrow> js_string parsed" where
  "parse_number s =
     (case scan_number s of
        None \<Rightarrow> Malformed
      | Some rest \<Rightarrow> Parsed (take (length s - length rest) s) rest)"

text \<open>
  The recursive descent over values.  Each call spends one unit of fuel.
  \<open>parse_elements\<close> reads the elements of a non-empty array after its bracket,
  \<open>parse_members\<close> the members of a non-empty object after its brace.
\<close>

fun parse_value :: "nat \<Rightarrow> js_string \<Rightarrow> json_syntax parsed"
  and parse_elements :: "nat \<Rightarrow> js_string \<Rightarrow> json_syntax list parsed"
  and parse_members :: "nat \<Rightarrow> js_string \<Rightarrow> (js_string \<times> json_syntax) list parsed"
where
  "parse_value 0 s = Exhausted"
| "parse_value (Suc fuel) s =
     (case skip_ws s of
        [] \<Rightarrow> Malformed
      | c # cs \<Rightarrow>
          if c = code CHR ''n'' then
            (if take 3 cs = utf16 ''ull'' then Parsed SNull (drop 3 cs) else Malformed)
          else if c = code CHR ''t'' then
            (if take 3 cs = utf16 ''rue'' then Parsed (SBoolean True) (drop 3 cs) else Malformed)
          else if c = code CHR ''f'' then
            (if take 4 cs = utf16 ''alse'' then Parsed (SBoolean False) (drop 4 cs) else Malformed)
          else if c = code CHR 0x22 then map_parsed SString (parse_chars cs)
          else if c = code CHR ''['' then
            (case skip_ws cs of
               [] \<Rightarrow> Malformed
             | d # ds \<Rightarrow>
                 if d = code CHR '']'' then Parsed (SArray []) ds
                 else map_parsed SArray (parse_elements fuel (d # ds)))
          else if c = code CHR ''{'' then
            (case skip_ws cs of
               [] \<Rightarrow> Malformed
             | d # ds \<Rightarrow>
                 if d = code CHR ''}'' then Parsed (SObject []) ds
                 else map_parsed SObject (parse_members fuel (d # ds)))
          else map_parsed SNumber (parse_number (c # cs)))"
| "parse_elements 0 s = Exhausted"
| "parse_elements (Suc fuel) s =
     (case parse_value fuel s of
        Parsed x rest \<Rightarrow>
          (case skip_ws rest of
             [] \<Rightarrow> Malformed
           | c # cs \<Rightarrow>
               if c = code CHR '','' then map_parsed (Cons x) (parse_elements fuel cs)
               else if c = code CHR '']'' then Parsed [x] cs
               else Malformed)
      | Malformed \<Rightarrow> Malformed
      | Exhausted \<Rightarrow> Exhausted)"
| "parse_members 0 s = Exhausted"
| "parse_members (Suc fuel) s =
     (case skip_ws s of
        [] \<Rightarrow> Malformed
      | q # qs \<Rightarrow>
          if q \<noteq> code CHR 0x22 then Malformed
          else
            (case parse_chars qs of
               Parsed key rest \<Rightarrow>
                 (case skip_ws rest of
                    [] \<Rightarrow> Malformed
                  | c # cs \<Rightarrow>
                      if c \<noteq> code CHR '':'' then Malformed
                      else
                        (case parse_value fuel cs of
                           Parsed x rest1 \<Rightarrow>
                             (case skip_ws rest1 of
                                [] \<Rightarrow> Malformed
                              | d # ds \<Rightarrow>
                                  if d = code CHR '','' then
                                    map_parsed (Cons (key, x)) (parse_members fuel ds)
                                  else if d = code CHR ''}'' then Parsed [(key, x)] ds
                                  else Malformed)
                         | Malformed \<Rightarrow> Malformed
                         | Exhausted \<Rightarrow> Exhausted))
             | Malformed \<Rightarrow> Malformed
             | Exhausted \<Rightarrow> Exhausted))"

text \<open>
  The syntax of a whole text: one value between white space.  With the fuel given here
  the recursion never reaches the end of its fuel (lemma \<open>JSON_syntax_total\<close> below).  A
  text is valid JSON when it has a syntax.
\<close>

definition JSON_syntax :: "js_string \<Rightarrow> json_syntax parsed" where
  "JSON_syntax text =
     (case parse_value (Suc (2 * length text)) text of
        Parsed t rest \<Rightarrow> if skip_ws rest = [] then Parsed t [] else Malformed
      | Malformed \<Rightarrow> Malformed
      | Exhausted \<Rightarrow> Exhausted)"

definition valid_JSON :: "js_string \<Rightarrow> bool" where
  "valid_JSON text = (case JSON_syntax text of Parsed t rest \<Rightarrow> True | _ \<Rightarrow> False)"

text \<open>
  The value of a valid text.  A property name that is an array index (the canonical
  numeral of an integer below \<open>2^32 - 1\<close>) is enumerated before the other names, in
  ascending numeric order; the other names are enumerated in the order of their
  creation.  Defining a property that exists replaces its value and keeps its place
  (\<^verbatim>\<open>CreateDataProperty\<close>), so of two members with one name the later gives the value.
\<close>

definition array_index :: "js_string \<Rightarrow> nat option" where
  "array_index k =
     (if k \<noteq> [] \<and> list_all is_digit k \<and> (k = utf16 ''0'' \<or> hd k \<noteq> code CHR ''0'')
         \<and> fst (read_digits 0 k) < 2 ^ 32 - 1
      then Some (fst (read_digits 0 k)) else None)"

fun insert_index :: "nat \<Rightarrow> js_string \<Rightarrow> 'v \<Rightarrow> (js_string \<times> 'v) list \<Rightarrow> (js_string \<times> 'v) list" where
  "insert_index i k v [] = [(k, v)]"
| "insert_index i k v ((k', v') # fs) =
     (case array_index k' of
        Some j \<Rightarrow> if j < i then (k', v') # insert_index i k v fs else (k, v) # (k', v') # fs
      | None \<Rightarrow> (k, v) # (k', v') # fs)"

definition define_property :: "(js_string \<times> 'v) list \<Rightarrow> js_string \<Rightarrow> 'v \<Rightarrow> (js_string \<times> 'v) list" where
  "define_property fs k v =
     (if k \<in> fst ` set fs then map (\<lambda>(k', v'). if k' = k then (k', v) else (k', v')) fs
      else case array_index k of
             Some i \<Rightarrow> insert_index i k v fs
           | None \<Rightarrow> fs @ [(k, v)])"

definition object_of_members :: "(js_string \<times> 'v) list \<Rightarrow> (js_string \<times> 'v) list" where
  "object_of_members ms = fold (\<lambda>m fs. define_property fs (fst m) (snd m)) ms []"

fun value_of :: "'n number_host \<Rightarrow> json_syntax \<Rightarrow> ('n, 'p) js_value option" where
  "value_of host SNull = Some JNull"
| "value_of host (SBoolean b) = Some (JBoolean b)"
| "value_of host (SNumber l) = map_option JNumber (StringToNumber host l)"
| "value_of host (SString s) = Some (JString s)"
| "value_of host (SArray ts) =
     map_option (JArray Array_prototype) (those (map (value_of host) ts))"
| "value_of host (SObject ms) =
     map_option (\<lambda>fs. JObject Object_prototype (object_of_members fs))
       (those (map (\<lambda>m. map_option (Pair (fst m)) (value_of host (snd m))) ms))"

definition JSON_parse_with :: "'n number_host \<Rightarrow> js_string \<Rightarrow> (js_error + ('n, 'p) js_value) option" where
  "JSON_parse_with host text =
     (case JSON_syntax text of
        Malformed \<Rightarrow> Some (Inl SyntaxError)
      | Exhausted \<Rightarrow> None
      | Parsed t rest \<Rightarrow> (case value_of host t of None \<Rightarrow> None | Some v \<Rightarrow> Some (Inr v)))"


definition JSON_parse :: "js_string \<Rightarrow> (js_error + (int, 'p) js_value) option" where
  "JSON_parse text = JSON_parse_with integers text"

subsection \<open>\<^verbatim>\<open>getJSON\<close> and \<^verbatim>\<open>fromJSON\<close>\<close>



definition fromJSON_with ::
  "(js_string \<Rightarrow> (js_error + 'v) option) \<Rightarrow> ('v \<Rightarrow> 'p \<Rightarrow> js_error + 'v) \<Rightarrow> 'p \<Rightarrow> js_string
     \<Rightarrow> (js_error + 'v) option" where
  "fromJSON_with parse setPrototypeOf Proto json =
     (case parse json of
        None \<Rightarrow> None
      | Some (Inl e) \<Rightarrow> Some (Inl e)
      | Some (Inr object) \<Rightarrow>
          (case setPrototypeOf object Proto of
             Inl e \<Rightarrow> Some (Inl e)
           | Inr object' \<Rightarrow> Some (Inr object')))"

definition fromJSON :: "'p \<Rightarrow> js_string \<Rightarrow> (js_error + (int, 'p) js_value) option" where
  "fromJSON Proto json = fromJSON_with JSON_parse Object_setPrototypeOf Proto json"
















section \<open>Properties of the selector builder\<close>

lemma canonical_index_simps:
  "canonical_index Element = 0" "canonical_index Id = 1" "canonical_index Class = 2"
  "canonical_index Attr = 3" "canonical_index PseudoClass = 4" "canonical_index PseudoElement = 5"
  by (simp_all add: canonical_index_def check_list_def)

lemma canonical_index_nonneg: "0 \<le> canonical_index c"
  by (cases c; simp add: canonical_index_simps)

lemma indexOf_category_name: "indexOf check_list (category_name c) = canonical_index c"
  by (simp add: canonical_index_def)

lemma check_category:
  "check (category_name c) this =
     (if canonical_index c < indexPrev_of this then (Throw (Error order_message), this)
      else if indexPrev_of this < canonical_index c
           then (Normal, this\<lparr>order := order this @ [category_name c]\<rparr>)
      else (Normal, this))"
  using canonical_index_nonneg [of c]
  by (auto simp add: check_def Let_def indexOf_category_name)

lemma call_unfold:
  "call c value this =
     (case check (category_name c) this of
        (Throw e, this') \<Rightarrow> (Throw e, this')
      | (Normal, this') \<Rightarrow>
          if singleton_category c
          then (if \<not> truthy (stored this' c)
                then (Normal, this'\<lparr>selector := set_prop (selector this') (slot c) (fragment c value)\<rparr>)
                else (Throw (Error duplicate_message), this'))
          else (Normal, this'\<lparr>selector := set_prop (selector this') (slot c)
                  ((case stored this' c of None \<Rightarrow> [] | Some old \<Rightarrow> old) @ fragment c value)\<rparr>))"
  by (cases c)
     (auto simp add: element_def id_sel_def class_sel_def attr_def pseudoClass_def
        pseudoElement_def stored_def split: prod.splits completion.splits option.splits)

lemma indexPrev_of_selector_update [simp]: "indexPrev_of (this\<lparr>selector := s\<rparr>) = indexPrev_of this"
  by (simp add: indexPrev_of_def prev_of_def)

lemma get_prop_set_prop: "get_prop (set_prop obj k v) k' = (if k' = k then Some v else get_prop obj k')"
  by (induction obj) (auto simp add: get_prop_def)

lemma slot_inj: "slot c = slot c' \<Longrightarrow> c = c'"
  by (cases c; cases c'; simp)

lemma prev_of_indexPrev: "prev_of this = Some (category_name c') \<Longrightarrow> indexPrev_of this = canonical_index c'"
  by (simp add: indexPrev_of_def indexOf_category_name)

text \<open>
  Claim C1.  Every category call performs the ordering check first: when the canonical
  index of the category being added is strictly less than the canonical index of the
  last category recorded on the chain, the call throws the \<^verbatim>\<open>Error\<close> with the ordering
  message and leaves the chain as it was, whatever the fragments stored so far (so also
  when the category is a singleton that is already stored); so \<^verbatim>\<open>id('x')\<close> followed by
  \<^verbatim>\<open>element('y')\<close> throws the ordering error.  The ordering message is not the duplicate
  message.
\<close>

theorem C1_ordering_check_first:
  "(prev_of this = Some (category_name c') \<and> canonical_index c < canonical_index c'
      \<longrightarrow> call c value this = (Throw (Error order_message), this))
   \<and> (canonical_index c < indexPrev_of this
      \<longrightarrow> call c value this = (Throw (Error order_message), this))
   \<and> chain [(Id, ''x''), (Element, ''y'')] new_NEWcssSelectorBuilder
        = (Throw (Error order_message), \<lparr>selector = [(2, ''#x'')], order = [''id'']\<rparr>)
   \<and> Error order_message \<noteq> Error duplicate_message
   \<and> order_message = ''Selector parts should be arranged in the following order: element, id, class, attribute, pseudo-class, pseudo-element''"
proof -
  have e: "chain [(Id, ''x''), (Element, ''y'')] new_NEWcssSelectorBuilder
        = (Throw (Error order_message), \<lparr>selector = [(2, ''#x'')], order = [''id'']\<rparr>)"
    by (simp add: id_sel_def element_def check_def indexPrev_of_def prev_of_def
        new_NEWcssSelectorBuilder_def check_list_def get_prop_def)
  have a: "call c value this = (Throw (Error order_message), this)"
    if "canonical_index c < indexPrev_of this"
    using that by (simp add: call_unfold check_category)
  have "order_message \<noteq> duplicate_message"
    by (simp add: order_message_def duplicate_message_def)
  with a e show ?thesis
    by (auto simp add: prev_of_indexPrev order_message_def)
qed

theorem C1_witness:
  "prev_of (snd (facade_call Id ''x'')) = Some (category_name Id)
   \<and> canonical_index Element < canonical_index Id
   \<and> fst (facade_call Id ''x'') = Normal
   \<and> fst (call Element ''y'' (snd (facade_call Id ''x''))) = Throw (Error order_message)
   \<and> chain [(Id, ''x''), (Element, ''y'')] new_NEWcssSelectorBuilder
       = (Throw (Error order_message), snd (facade_call Id ''x''))"
proof -
  have p: "prev_of (snd (facade_call Id ''x'')) = Some (category_name Id)"
    by (simp add: facade_call_def id_sel_def check_def indexPrev_of_def prev_of_def
        new_NEWcssSelectorBuilder_def check_list_def get_prop_def)
  have i: "canonical_index Element < canonical_index Id"
    by (simp add: canonical_index_simps)
  have n: "fst (facade_call Id ''x'') = Normal"
    by (simp add: facade_call_def id_sel_def check_def indexPrev_of_def prev_of_def
        new_NEWcssSelectorBuilder_def check_list_def get_prop_def)
  from C1_ordering_check_first [of "snd (facade_call Id ''x'')" Id Element "''y''"] p i
  have t: "call Element ''y'' (snd (facade_call Id ''x'')) = (Throw (Error order_message), snd (facade_call Id ''x''))"
    by blast
  have "call Id ''x'' new_NEWcssSelectorBuilder = (Normal, snd (facade_call Id ''x''))"
    using n by (simp add: facade_call_def prod_eq_iff)
  with t p i n show ?thesis by simp
qed

lemma call_Normal_order:
  assumes "call c value this = (Normal, this')"
  shows "indexPrev_of this \<le> canonical_index c"
    and "order this' = (if indexPrev_of this < canonical_index c
                        then order this @ [category_name c] else order this)"
    and "indexPrev_of this' = canonical_index c"
proof -
  from assms show le: "indexPrev_of this \<le> canonical_index c"
    by (auto simp add: call_unfold check_category split: if_splits)
  from assms show ord: "order this' = (if indexPrev_of this < canonical_index c
                        then order this @ [category_name c] else order this)"
    by (auto simp add: call_unfold check_category split: if_splits)
  show "indexPrev_of this' = canonical_index c"
  proof (cases "indexPrev_of this < canonical_index c")
    case True
    with ord have "order this' = order this @ [category_name c]" by simp
    then show ?thesis
      by (simp add: indexPrev_of_def prev_of_def indexOf_category_name)
  next
    case False
    with le have eq: "indexPrev_of this = canonical_index c" by simp
    from False ord have "order this' = order this" by simp
    then have "indexPrev_of this' = indexPrev_of this"
      by (simp add: indexPrev_of_def prev_of_def)
    with eq show ?thesis by simp
  qed
qed

lemma call_order_violation:
  "canonical_index c < indexPrev_of this \<Longrightarrow> call c value this = (Throw (Error order_message), this)"
  by (simp add: call_unfold check_category)

lemma call_no_order_violation:
  "indexPrev_of this \<le> canonical_index c \<Longrightarrow> fst (call c value this) \<noteq> Throw (Error order_message)"
  by (auto simp add: call_unfold check_category order_message_def duplicate_message_def)

text \<open>
  Claim C6.  After a successful call of category \<open>c\<close> the array \<^verbatim>\<open>order\<close> has gained the
  name of \<open>c\<close> exactly when the canonical index of \<open>c\<close> is strictly greater than the
  index recorded last, and is unchanged otherwise (the indices are then equal).  The
  last recorded category is then \<open>c\<close>: a further call of \<open>c\<close> passes the ordering check,
  and a call of any category strictly earlier in canonical order throws the ordering
  error and leaves the chain unchanged.
\<close>

theorem C6_last_category_pointer:
  "call c value this = (Normal, this') \<Longrightarrow>
     order this' = (if indexPrev_of this < canonical_index c
                    then order this @ [category_name c] else order this)
   \<and> indexPrev_of this \<le> canonical_index c
   \<and> prev_of this' = Some (category_name c)
   \<and> indexPrev_of this' = canonical_index c
   \<and> (\<forall>v. fst (call c v this') \<noteq> Throw (Error order_message))
   \<and> (\<forall>c' v. canonical_index c' < canonical_index c
          \<longrightarrow> call c' v this' = (Throw (Error order_message), this'))"
proof -
  assume a: "call c value this = (Normal, this')"
  note f = call_Normal_order [OF a]
  have p: "prev_of this' = Some (category_name c)"
  proof (cases "indexPrev_of this < canonical_index c")
    case True
    with f(2) show ?thesis by (simp add: prev_of_def)
  next
    case False
    with f(1) have eq: "indexPrev_of this = canonical_index c" by simp
    from False f(2) have o: "order this' = order this" by simp
    from eq canonical_index_nonneg [of c] obtain s where s: "prev_of this = Some s"
      by (cases "prev_of this") (auto simp add: indexPrev_of_def)
    with eq have "indexOf check_list s = indexOf check_list (category_name c)"
      by (simp add: indexPrev_of_def indexOf_category_name)
    moreover have "indexOf check_list s = indexOf check_list (category_name c) \<Longrightarrow> s = category_name c"
      by (cases c) (auto simp add: check_list_def Let_def split: if_splits)
    ultimately have "s = category_name c" by simp
    with s o show ?thesis by (auto simp add: prev_of_def split: if_splits)
  qed
  from f p show ?thesis
    by (simp add: call_no_order_violation call_order_violation)
qed

theorem C6_witness:
  "call Class ''b'' \<lparr>selector = [(2, ''#a'')], order = [''id'']\<rparr>
      = (Normal, \<lparr>selector = [(2, ''#a''), (3, ''.b'')], order = [''id'', ''class'']\<rparr>)
   \<and> indexPrev_of \<lparr>selector = [(2, ''#a'')], order = [''id'']\<rparr> < canonical_index Class
   \<and> prev_of \<lparr>selector = [(2, ''#a''), (3, ''.b'')], order = [''id'', ''class'']\<rparr> = Some (category_name Class)
   \<and> fst (call Class ''c'' \<lparr>selector = [(2, ''#a''), (3, ''.b'')], order = [''id'', ''class'']\<rparr>)
        \<noteq> Throw (Error order_message)
   \<and> canonical_index Id < canonical_index Class
   \<and> call Id ''d'' \<lparr>selector = [(2, ''#a''), (3, ''.b'')], order = [''id'', ''class'']\<rparr>
       = (Throw (Error order_message), \<lparr>selector = [(2, ''#a''), (3, ''.b'')], order = [''id'', ''class'']\<rparr>)"
proof -
  have 1: "call Class ''b'' \<lparr>selector = [(2, ''#a'')], order = [''id'']\<rparr>
      = (Normal, \<lparr>selector = [(2, ''#a''), (3, ''.b'')], order = [''id'', ''class'']\<rparr>)"
    by (simp add: class_sel_def check_def indexPrev_of_def prev_of_def check_list_def get_prop_def)
  have 2: "indexPrev_of \<lparr>selector = [(2, ''#a'')], order = [''id'']\<rparr> < canonical_index Class"
    "canonical_index Id < canonical_index Class"
    by (simp_all add: indexPrev_of_def prev_of_def canonical_index_def check_list_def)
  from C6_last_category_pointer [OF 1] 1 2 show ?thesis by (simp del: call.simps)
qed

lemma stored_order_update [simp]: "stored (this\<lparr>order := x\<rparr>) c = stored this c"
  by (simp add: stored_def)

lemma repeatable_call:
  assumes "\<not> singleton_category c" and "indexPrev_of this \<le> canonical_index c"
  shows "\<exists>this'. call c value this = (Normal, this')
           \<and> indexPrev_of this' = canonical_index c
           \<and> stored this' c = Some ((case stored this c of None \<Rightarrow> [] | Some old \<Rightarrow> old) @ fragment c value)"
proof -
  from assms have "fst (call c value this) = Normal"
    by (simp add: call_unfold check_category)
  then obtain this' where c: "call c value this = (Normal, this')"
    by (cases "call c value this") simp
  from c have "indexPrev_of this' = canonical_index c"
    by (rule call_Normal_order)
  moreover from c assms
  have "stored this' c = Some ((case stored this c of None \<Rightarrow> [] | Some old \<Rightarrow> old) @ fragment c value)"
    by (auto simp add: call_unfold check_category stored_def get_prop_set_prop
        split: if_splits)
  ultimately show ?thesis using c by simp
qed

lemma repeatable_chain:
  assumes "\<not> singleton_category c"
  shows "indexPrev_of this \<le> canonical_index c \<Longrightarrow>
         \<exists>this'. chain (map (Pair c) (v # vs)) this = (Normal, this')
           \<and> stored this' c = Some ((case stored this c of None \<Rightarrow> [] | Some old \<Rightarrow> old)
                                     @ concat (map (fragment c) (v # vs)))"
proof (induction vs arbitrary: this v)
  case Nil
  from repeatable_call [OF assms Nil, of v] show ?case by auto
next
  case (Cons w ws)
  from repeatable_call [OF assms Cons.prems, of v] obtain this1 where
    1: "call c v this = (Normal, this1)" "indexPrev_of this1 = canonical_index c"
       "stored this1 c = Some ((case stored this c of None \<Rightarrow> [] | Some old \<Rightarrow> old) @ fragment c v)"
    by blast
  from 1(2) have "indexPrev_of this1 \<le> canonical_index c" by simp
  from Cons.IH [OF this, of w] obtain this' where
    2: "chain (map (Pair c) (w # ws)) this1 = (Normal, this')"
       "stored this' c = Some ((case stored this1 c of None \<Rightarrow> [] | Some old \<Rightarrow> old)
                                     @ concat (map (fragment c) (w # ws)))"
    by blast
  from 1 2 show ?case by simp
qed

lemma repeatable_no_duplicate_error:
  "\<not> singleton_category c \<Longrightarrow> fst (call c value this) \<noteq> Throw (Error duplicate_message)"
  by (auto simp add: call_unfold check_category order_message_def duplicate_message_def)

text \<open>
  Claim C5, as amended.  The repeatable categories \<^verbatim>\<open>class\<close>, \<^verbatim>\<open>attr\<close> and \<^verbatim>\<open>pseudoClass\<close> never
  throw the duplicate error, on any chain.  On every chain on which no category later in
  canonical order has been recorded, every non-empty sequence of calls of that category
  succeeds, and afterwards the fragment of the category is the fragment it had before
  (the empty string if it had none) followed by \<^verbatim>\<open>.value\<close>, \<^verbatim>\<open>[value]\<close> or \<^verbatim>\<open>:value\<close> for each
  value, in call order.  (On a chain on which a later category has been recorded the
  ordering check fails first.)  Calling \<^verbatim>\<open>class\<close> with \<^verbatim>\<open>a\<close>, \<^verbatim>\<open>b\<close>, \<^verbatim>\<open>c\<close> on a new
  builder stores \<^verbatim>\<open>.a.b.c\<close>.
\<close>

theorem C5_repeatable_categories:
  "(\<not> singleton_category c \<longrightarrow> fst (call c value this) \<noteq> Throw (Error duplicate_message))
   \<and> (\<not> singleton_category c \<and> indexPrev_of this \<le> canonical_index c \<and> vs \<noteq> []
        \<longrightarrow> (\<exists>this'. chain (map (Pair c) vs) this = (Normal, this')
               \<and> stored this' c = Some ((case stored this c of None \<Rightarrow> [] | Some old \<Rightarrow> old)
                                         @ concat (map (fragment c) vs))))
   \<and> (\<not> singleton_category c \<longleftrightarrow> c \<in> {Class, Attr, PseudoClass})
   \<and> fragment Class value = ''.'' @ value
   \<and> fragment Attr value = ''['' @ value @ '']''
   \<and> fragment PseudoClass value = '':'' @ value
   \<and> chain [(Class, ''a''), (Class, ''b''), (Class, ''c'')] new_NEWcssSelectorBuilder
       = (Normal, \<lparr>selector = [(3, ''.a.b.c'')], order = [''class'']\<rparr>)"
proof -
  have 1: "\<not> singleton_category c \<longrightarrow> fst (call c value this) \<noteq> Throw (Error duplicate_message)"
    by (simp add: repeatable_no_duplicate_error)
  have 2: "\<not> singleton_category c \<and> indexPrev_of this \<le> canonical_index c \<and> vs \<noteq> []
        \<longrightarrow> (\<exists>this'. chain (map (Pair c) vs) this = (Normal, this')
               \<and> stored this' c = Some ((case stored this c of None \<Rightarrow> [] | Some old \<Rightarrow> old)
                                         @ concat (map (fragment c) vs)))"
  proof (cases vs)
    case Nil
    then show ?thesis by simp
  next
    case (Cons w ws)
    show ?thesis
    proof
      assume h: "\<not> singleton_category c \<and> indexPrev_of this \<le> canonical_index c \<and> vs \<noteq> []"
      then have "\<not> singleton_category c" and "indexPrev_of this \<le> canonical_index c"
        by simp_all
      from repeatable_chain [OF this, of w ws] Cons
      show "\<exists>this'. chain (map (Pair c) vs) this = (Normal, this')
               \<and> stored this' c = Some ((case stored this c of None \<Rightarrow> [] | Some old \<Rightarrow> old)
                                         @ concat (map (fragment c) vs))"
        by simp
    qed
  qed
  have 3: "\<not> singleton_category c \<longleftrightarrow> c \<in> {Class, Attr, PseudoClass}"
    by (cases c) simp_all
  have 4: "chain [(Class, ''a''), (Class, ''b''), (Class, ''c'')] new_NEWcssSelectorBuilder
       = (Normal, \<lparr>selector = [(3, ''.a.b.c'')], order = [''class'']\<rparr>)"
    by (simp add: class_sel_def check_def indexPrev_of_def prev_of_def
        new_NEWcssSelectorBuilder_def check_list_def get_prop_def)
  from 1 2 3 4 show ?thesis by simp
qed

theorem C5_counterexample:
  "chain [(Class, ''a''), (PseudoClass, ''b'')] new_NEWcssSelectorBuilder
      = (Normal, \<lparr>selector = [(3, ''.a''), (5, '':b'')], order = [''class'', ''pseudoClass'']\<rparr>)
   \<and> \<not> singleton_category Class
   \<and> call Class ''c'' \<lparr>selector = [(3, ''.a''), (5, '':b'')], order = [''class'', ''pseudoClass'']\<rparr>
        = (Throw (Error order_message),
           \<lparr>selector = [(3, ''.a''), (5, '':b'')], order = [''class'', ''pseudoClass'']\<rparr>)
   \<and> stored \<lparr>selector = [(3, ''.a''), (5, '':b'')], order = [''class'', ''pseudoClass'']\<rparr> Class
        = Some ''.a''"
  by (simp add: class_sel_def pseudoClass_def check_def indexPrev_of_def prev_of_def
      new_NEWcssSelectorBuilder_def check_list_def get_prop_def stored_def)

theorem C5_witness:
  "\<not> singleton_category Attr
   \<and> indexPrev_of \<lparr>selector = [(1, ''a'')], order = [''element'']\<rparr> \<le> canonical_index Attr
   \<and> chain (map (Pair Attr) [''x'', ''y'']) \<lparr>selector = [(1, ''a'')], order = [''element'']\<rparr>
       = (Normal, \<lparr>selector = [(1, ''a''), (4, ''[x][y]'')], order = [''element'', ''attr'']\<rparr>)
   \<and> stored \<lparr>selector = [(1, ''a''), (4, ''[x][y]'')], order = [''element'', ''attr'']\<rparr> Attr
       = Some ((case stored \<lparr>selector = [(1, ''a'')], order = [''element'']\<rparr> Attr of None \<Rightarrow> [] | Some old \<Rightarrow> old)
               @ concat (map (fragment Attr) [''x'', ''y'']))"
proof -
  have 1: "indexPrev_of \<lparr>selector = [(1, ''a'')], order = [''element'']\<rparr> \<le> canonical_index Attr"
    by (simp add: indexPrev_of_def prev_of_def canonical_index_def check_list_def)
  have 2: "chain (map (Pair Attr) [''x'', ''y'']) \<lparr>selector = [(1, ''a'')], order = [''element'']\<rparr>
       = (Normal, \<lparr>selector = [(1, ''a''), (4, ''[x][y]'')], order = [''element'', ''attr'']\<rparr>)"
    by (simp add: attr_def check_def indexPrev_of_def prev_of_def check_list_def get_prop_def)
  from C5_repeatable_categories [of Attr "''x''" "\<lparr>selector = [(1, ''a'')], order = [''element'']\<rparr>" "[''x'', ''y'']"] 1 2
  show ?thesis by simp
qed

lemma singleton_duplicate:
  "singleton_category c \<Longrightarrow> truthy (stored this c) \<Longrightarrow> indexPrev_of this \<le> canonical_index c
     \<Longrightarrow> fst (call c value this) = Throw (Error duplicate_message)"
  by (auto simp add: call_unfold check_category)

lemma singleton_first_call:
  assumes "singleton_category c" and "call c v1 this0 = (Normal, this)"
  shows "stored this c = Some (fragment c v1)"
  using assms
  by (auto simp add: call_unfold check_category stored_def get_prop_set_prop split: if_splits)

text \<open>
  Claim C2, as amended.  A call of \<^verbatim>\<open>element\<close>, \<^verbatim>\<open>id\<close> or \<^verbatim>\<open>pseudoElement\<close> on a chain
  where that category holds a non-empty fragment and no category later in canonical
  order has been recorded throws the \<^verbatim>\<open>Error\<close> with the duplicate message, for every
  argument; in particular a second call directly after a successful first call that
  stored a non-empty fragment does, and the fragments of \<^verbatim>\<open>id\<close> and \<^verbatim>\<open>pseudoElement\<close>
  are never empty.
\<close>

theorem C2_duplicate_singleton:
  "(singleton_category c \<and> truthy (stored this c) \<and> indexPrev_of this \<le> canonical_index c
      \<longrightarrow> fst (call c value this) = Throw (Error duplicate_message))
   \<and> (singleton_category c \<and> call c v1 this0 = (Normal, this) \<and> fragment c v1 \<noteq> []
      \<longrightarrow> fst (call c value this) = Throw (Error duplicate_message))
   \<and> (singleton_category c \<longleftrightarrow> c \<in> {Element, Id, PseudoElement})
   \<and> fragment Id v1 \<noteq> [] \<and> fragment PseudoElement v1 \<noteq> []"
proof -
  have 1: "fst (call c value this) = Throw (Error duplicate_message)"
    if "singleton_category c" "call c v1 this0 = (Normal, this)" "fragment c v1 \<noteq> []"
  proof -
    from that have "truthy (stored this c)"
      by (simp add: singleton_first_call)
    moreover from that(2) have "indexPrev_of this \<le> canonical_index c"
      by (simp add: call_Normal_order(3))
    ultimately show ?thesis using that(1) by (simp add: singleton_duplicate)
  qed
  have 2: "singleton_category c \<longleftrightarrow> c \<in> {Element, Id, PseudoElement}"
    by (cases c) simp_all
  from 1 2 show ?thesis
    by (auto simp add: singleton_duplicate)
qed

theorem C2_counterexample:
  "chain [(Id, ''a''), (Class, ''b'')] new_NEWcssSelectorBuilder
      = (Normal, \<lparr>selector = [(2, ''#a''), (3, ''.b'')], order = [''id'', ''class'']\<rparr>)
   \<and> stored \<lparr>selector = [(2, ''#a''), (3, ''.b'')], order = [''id'', ''class'']\<rparr> Id = Some ''#a''
   \<and> fst (call Id ''c'' \<lparr>selector = [(2, ''#a''), (3, ''.b'')], order = [''id'', ''class'']\<rparr>)
        = Throw (Error order_message)
   \<and> fst (call Id ''c'' \<lparr>selector = [(2, ''#a''), (3, ''.b'')], order = [''id'', ''class'']\<rparr>)
        \<noteq> Throw (Error duplicate_message)"
  by (simp add: id_sel_def class_sel_def check_def indexPrev_of_def prev_of_def
      new_NEWcssSelectorBuilder_def check_list_def get_prop_def stored_def
      order_message_def duplicate_message_def)

theorem C2_witness:
  "singleton_category Id \<and> call Id ''a'' new_NEWcssSelectorBuilder = (Normal, \<lparr>selector = [(2, ''#a'')], order = [''id'']\<rparr>)
   \<and> fragment Id ''a'' \<noteq> []
   \<and> truthy (stored \<lparr>selector = [(2, ''#a'')], order = [''id'']\<rparr> Id)
   \<and> indexPrev_of \<lparr>selector = [(2, ''#a'')], order = [''id'']\<rparr> \<le> canonical_index Id
   \<and> fst (call Id ''b'' \<lparr>selector = [(2, ''#a'')], order = [''id'']\<rparr>) = Throw (Error duplicate_message)"
proof -
  have 1: "call Id ''a'' new_NEWcssSelectorBuilder = (Normal, \<lparr>selector = [(2, ''#a'')], order = [''id'']\<rparr>)"
    by (simp add: id_sel_def check_def indexPrev_of_def prev_of_def
      new_NEWcssSelectorBuilder_def check_list_def get_prop_def)
  have 2: "truthy (stored \<lparr>selector = [(2, ''#a'')], order = [''id'']\<rparr> Id)"
    by (simp add: stored_def get_prop_def)
  have 3: "indexPrev_of \<lparr>selector = [(2, ''#a'')], order = [''id'']\<rparr> \<le> canonical_index Id"
    by (simp add: indexPrev_of_def prev_of_def canonical_index_def check_list_def)
  from C2_duplicate_singleton [of Id "\<lparr>selector = [(2, ''#a'')], order = [''id'']\<rparr>" "''b''" "''a''" new_NEWcssSelectorBuilder] 1 2 3
  show ?thesis by simp
qed

text \<open>
  An empty element name is stored, but it is falsy: a second call of \<^verbatim>\<open>element\<close> then
  finds no fragment and stores its own value.
\<close>

lemma empty_element_replaced:
  "chain [(Element, []), (Element, ''y'')] new_NEWcssSelectorBuilder
     = (Normal, \<lparr>selector = [(1, ''y'')], order = [''element'']\<rparr>)"
  by (simp add: element_def check_def indexPrev_of_def prev_of_def
      new_NEWcssSelectorBuilder_def check_list_def get_prop_def)

subsection \<open>What a failed call leaves behind\<close>

lemma order_inv_new: "order_inv new_NEWcssSelectorBuilder"
  by (simp add: order_inv_def new_NEWcssSelectorBuilder_def stored_def get_prop_def)

lemma call_Throw_cases:
  assumes "call c value this = (Throw e, this')"
  shows "(canonical_index c < indexPrev_of this \<and> e = Error order_message \<and> this' = this)
       \<or> (indexPrev_of this \<le> canonical_index c \<and> singleton_category c \<and> e = Error duplicate_message
            \<and> truthy (stored this c)
            \<and> this' = (if indexPrev_of this < canonical_index c
                        then this\<lparr>order := order this @ [category_name c]\<rparr> else this))"
  using assms
  by (auto simp add: call_unfold check_category split: if_splits)

lemma throw_unchanged:
  assumes "order_inv this" and "call c value this = (Throw e, this')"
  shows "this' = this"
proof -
  from call_Throw_cases [OF assms(2)] show ?thesis
  proof
    assume "canonical_index c < indexPrev_of this \<and> e = Error order_message \<and> this' = this"
    then show ?thesis by simp
  next
    assume h: "indexPrev_of this \<le> canonical_index c \<and> singleton_category c \<and> e = Error duplicate_message
            \<and> truthy (stored this c)
            \<and> this' = (if indexPrev_of this < canonical_index c
                        then this\<lparr>order := order this @ [category_name c]\<rparr> else this)"
    with assms(1) have "canonical_index c \<le> indexPrev_of this"
      by (simp add: order_inv_def)
    with h show ?thesis by simp
  qed
qed

lemma order_inv_call_Normal:
  assumes "order_inv this" and "call c value this = (Normal, this')"
  shows "order_inv this'"
  unfolding order_inv_def
proof (intro allI impI)
  fix c'
  assume t: "truthy (stored this' c')"
  note f = call_Normal_order [OF assms(2)]
  show "canonical_index c' \<le> indexPrev_of this'"
  proof (cases "c' = c")
    case True
    with f(3) show ?thesis by simp
  next
    case False
    with assms(2) have "stored this' c' = stored this c'"
      by (auto simp add: call_unfold check_category stored_def get_prop_set_prop
          dest: slot_inj split: if_splits)
    with t assms(1) have "canonical_index c' \<le> indexPrev_of this"
      by (simp add: order_inv_def)
    with f(1) f(3) show ?thesis by simp
  qed
qed

lemma order_inv_call: "order_inv this \<Longrightarrow> order_inv (snd (call c value this))"
proof -
  assume i: "order_inv this"
  obtain r this' where c: "call c value this = (r, this')"
    by (cases "call c value this")
  show ?thesis
  proof (cases r)
    case Normal
    with c i show ?thesis by (simp add: order_inv_call_Normal)
  next
    case (Throw e)
    with c i have "this' = this" by (simp add: throw_unchanged)
    with c i show ?thesis by simp
  qed
qed

lemma order_inv_attempts: "order_inv this \<Longrightarrow> order_inv (attempts history this)"
  by (induction history arbitrary: this) (auto simp add: order_inv_call)

text \<open>
  Claim C9.  On a chain reached from a new builder by any sequence of category calls,
  successful or not, a category call that throws leaves the chain (the stored fragments
  and the array \<^verbatim>\<open>order\<close>) exactly as it was before the call, so \<^verbatim>\<open>stringify\<close> returns
  what it would have returned before; the error thrown is the ordering error or the
  duplicate error.
\<close>

theorem C9_failed_call_leaves_state:
  "call c value (attempts history new_NEWcssSelectorBuilder) = (Throw e, this')
   \<Longrightarrow> this' = attempts history new_NEWcssSelectorBuilder
     \<and> stringify this' = stringify (attempts history new_NEWcssSelectorBuilder)
     \<and> (e = Error order_message \<or> e = Error duplicate_message)"
proof -
  assume a: "call c value (attempts history new_NEWcssSelectorBuilder) = (Throw e, this')"
  have "order_inv (attempts history new_NEWcssSelectorBuilder)"
    by (simp add: order_inv_attempts order_inv_new)
  from throw_unchanged [OF this a] call_Throw_cases [OF a] show ?thesis by auto
qed

theorem C9_witness:
  "attempts [(Id, ''x''), (Element, ''y'')] new_NEWcssSelectorBuilder = \<lparr>selector = [(2, ''#x'')], order = [''id'']\<rparr>
   \<and> call Id ''z'' (attempts [(Id, ''x''), (Element, ''y'')] new_NEWcssSelectorBuilder)
       = (Throw (Error duplicate_message), \<lparr>selector = [(2, ''#x'')], order = [''id'']\<rparr>)
   \<and> stringify \<lparr>selector = [(2, ''#x'')], order = [''id'']\<rparr>
       = stringify (attempts [(Id, ''x''), (Element, ''y'')] new_NEWcssSelectorBuilder)"
proof -
  have 1: "attempts [(Id, ''x''), (Element, ''y'')] new_NEWcssSelectorBuilder = \<lparr>selector = [(2, ''#x'')], order = [''id'']\<rparr>"
    by (simp add: id_sel_def element_def check_def indexPrev_of_def prev_of_def check_list_def
        get_prop_def new_NEWcssSelectorBuilder_def)
  have 2: "call Id ''z'' (attempts [(Id, ''x''), (Element, ''y'')] new_NEWcssSelectorBuilder)
       = (Throw (Error duplicate_message), \<lparr>selector = [(2, ''#x'')], order = [''id'']\<rparr>)"
    unfolding 1
    by (simp add: id_sel_def check_def indexPrev_of_def prev_of_def check_list_def get_prop_def)
  from C9_failed_call_leaves_state [OF 2] 1 2 show ?thesis by simp
qed

lemma set_prop_keys: "fst ` set (set_prop obj k v) = insert k (fst ` set obj)"
  by (induction obj k v rule: set_prop.induct) auto

lemma set_prop_sorted: "sorted_wrt (<) (map fst obj) \<Longrightarrow> sorted_wrt (<) (map fst (set_prop obj k v))"
proof (induction obj)
  case Nil
  then show ?case by simp
next
  case (Cons p ps)
  obtain k' v' where p: "p = (k', v')" by (cases p)
  from Cons.prems have s: "sorted_wrt (<) (map fst ps)" by simp
  from Cons.prems p have lt: "\<forall>x\<in>set (map fst ps). k' < x" by simp
  show ?case
  proof (cases "k < k'")
    case True
    with Cons.prems p show ?thesis by auto
  next
    case False
    show ?thesis
    proof (cases "k = k'")
      case True
      with Cons.prems p show ?thesis by simp
    next
      case ne: False
      with False have "k' < k" by simp
      with lt have "\<forall>x\<in>set (map fst (set_prop ps k v)). k' < x"
        by (simp add: set_prop_keys)
      with Cons.IH [OF s] p False ne show ?thesis by simp
    qed
  qed
qed

lemma slot_range: "slot c \<in> set (map slot canonical_order)"
  by (cases c) (simp_all add: canonical_order_def)

lemma selector_inv_set_prop: "selector_inv obj \<Longrightarrow> selector_inv (set_prop obj (slot c) v)"
  using slot_range [of c]
  by (simp add: selector_inv_def set_prop_sorted set_prop_keys)

lemma selector_inv_call: "selector_inv (selector this) \<Longrightarrow> selector_inv (selector (snd (call c value this)))"
  by (auto simp add: call_unfold check_category selector_inv_set_prop)

lemma selector_inv_chain:
  "selector_inv (selector this) \<Longrightarrow> chain calls this = (r, this') \<Longrightarrow> selector_inv (selector this')"
proof (induction calls arbitrary: this)
  case Nil
  then show ?case by simp
next
  case (Cons a calls)
  obtain c v where a: "a = (c, v)" by (cases a)
  obtain r1 this1 where c1: "call c v this = (r1, this1)" by (cases "call c v this")
  from selector_inv_call [OF Cons.prems(1), of c v] c1 have i: "selector_inv (selector this1)"
    by simp
  show ?case
  proof (cases r1)
    case Normal
    with Cons.prems(2) a c1 have "chain calls this1 = (r, this')" by simp
    from Cons.IH [OF i this] show ?thesis .
  next
    case (Throw e)
    with Cons.prems(2) a c1 have "this' = this1" by simp
    with i show ?thesis by simp
  qed
qed

lemma map_filter_cong_set:
  "\<forall>x\<in>set xs. f x = g x \<Longrightarrow> List.map_filter f xs = List.map_filter g xs"
  by (induction xs) (auto simp add: List.map_filter_simps split: option.splits)

lemma values_by_keys:
  "sorted_wrt (<) (map fst obj) \<Longrightarrow> sorted_wrt (<) ks \<Longrightarrow> set (map fst obj) \<subseteq> set ks
     \<Longrightarrow> map snd obj = List.map_filter (map_of obj) (ks :: nat list)"
proof (induction ks arbitrary: obj)
  case Nil
  then show ?case by (simp add: List.map_filter_simps)
next
  case (Cons k ks)
  show ?case
  proof (cases obj)
    case Nil
    then show ?thesis by (simp add: List.map_filter_def)
  next
    case (Cons p ps)
    obtain a v where p: "p = (a, v)" by (cases p)
    from Cons.prems(1) Cons p have s: "sorted_wrt (<) (map fst ps)"
      and gt: "\<forall>x\<in>set (map fst ps). a < x" by simp_all
    from Cons.prems(2) have sk: "sorted_wrt (<) ks" and gk: "\<forall>x\<in>set ks. k < x" by simp_all
    show ?thesis
    proof (cases "a = k")
      case True
      from gt True Cons.prems(3) Cons p have sub: "set (map fst ps) \<subseteq> set ks" by auto
      have "List.map_filter (map_of obj) (k # ks) = v # List.map_filter (map_of obj) ks"
        using True Cons p by (simp add: List.map_filter_simps)
      also have "List.map_filter (map_of obj) ks = List.map_filter (map_of ps) ks"
        by (rule map_filter_cong_set) (use gk True Cons p in auto)
      also have "v # List.map_filter (map_of ps) ks = v # map snd ps"
        using Cons.IH [OF s sk sub] by simp
      finally show ?thesis using Cons p by simp
    next
      case False
      with Cons.prems(3) Cons p have "a \<in> set ks" by auto
      with gk have ka: "k < a" by simp
      with gt have above: "\<forall>x\<in>set (map fst obj). k < x" using Cons p by auto
      then have notin: "k \<notin> set (map fst obj)" by auto
      then have n: "map_of obj k = None" by (simp add: map_of_eq_None_iff)
      from notin Cons.prems(3) have sub: "set (map fst obj) \<subseteq> set ks" by auto
      from Cons.IH [OF Cons.prems(1) sk sub] n show ?thesis
        by (simp add: List.map_filter_simps)
    qed
  qed
qed

lemma join_empty: "join [] xs = concat xs"
  by (induction xs rule: induct_list012) simp_all

lemma selector_inv_new: "selector_inv (selector new_NEWcssSelectorBuilder)"
  by (simp add: selector_inv_def new_NEWcssSelectorBuilder_def)

lemma map_filter_map: "List.map_filter f (map g xs) = List.map_filter (\<lambda>x. f (g x)) xs"
  by (induction xs) (auto simp add: List.map_filter_simps split: option.splits)

lemma stringify_canonical:
  assumes "selector_inv (selector this)"
  shows "stringify this = (concat (List.map_filter (stored this) canonical_order), this)"
proof -
  have "sorted_wrt (<) (map slot canonical_order)"
    by (simp add: canonical_order_def)
  with assms have "map snd (selector this) = List.map_filter (map_of (selector this)) (map slot canonical_order)"
    unfolding selector_inv_def by (intro values_by_keys) simp_all
  also have "\<dots> = List.map_filter (\<lambda>c. map_of (selector this) (slot c)) canonical_order"
    by (rule map_filter_map)
  also have "(\<lambda>c. map_of (selector this) (slot c)) = stored this"
    by (simp add: fun_eq_iff stored_def get_prop_def)
  finally show ?thesis
    by (simp add: stringify_def Object_values_def join_empty)
qed

lemma slot_index: "int (slot c) = canonical_index c + 1"
  by (cases c) (simp_all add: canonical_index_simps)

lemma set_prop_last:
  "sorted_wrt (<) (map fst obj) \<Longrightarrow> \<forall>k'\<in>fst ` set obj. k' \<le> k
     \<Longrightarrow> concat (map snd (set_prop obj k ((case map_of obj k of None \<Rightarrow> [] | Some old \<Rightarrow> old) @ f)))
         = concat (map snd obj) @ f"
proof (induction obj)
  case Nil
  then show ?case by simp
next
  case (Cons p ps)
  obtain k' v' where p: "p = (k', v')" by (cases p)
  show ?case
  proof (cases "k' = k")
    case True
    with Cons.prems p have "\<forall>x\<in>fst ` set ps. k < x" by auto
    moreover from Cons.prems(2) have "\<forall>x\<in>fst ` set ps. x \<le> k" by simp
    ultimately have "ps = []" by (cases ps) fastforce+
    with True p show ?thesis by simp
  next
    case False
    with Cons.prems(2) p have lt: "k' < k" by auto
    from Cons.prems have "concat (map snd (set_prop ps k ((case map_of ps k of None \<Rightarrow> [] | Some old \<Rightarrow> old) @ f)))
         = concat (map snd ps) @ f"
      by (intro Cons.IH) simp_all
    with lt p False show ?thesis by simp
  qed
qed

lemma call_Normal_selector:
  assumes "call c value this = (Normal, this')"
  shows "selector this' = set_prop (selector this) (slot c)
           ((case stored this c of None \<Rightarrow> [] | Some old \<Rightarrow> old) @ fragment c value)"
  using assms
  by (cases "stored this c")
     (auto simp add: call_unfold check_category split: if_splits)

lemma keys_inv_call_Normal:
  assumes "keys_inv this" and "call c value this = (Normal, this')"
  shows "keys_inv this'"
  unfolding keys_inv_def
proof (intro allI impI)
  fix c'
  assume t: "stored this' c' \<noteq> None"
  note f = call_Normal_order [OF assms(2)]
  show "canonical_index c' \<le> indexPrev_of this'"
  proof (cases "c' = c")
    case True
    with f(3) show ?thesis by simp
  next
    case False
    with call_Normal_selector [OF assms(2)] have "stored this' c' = stored this c'"
      by (auto simp add: stored_def get_prop_set_prop dest: slot_inj)
    with t assms(1) have "canonical_index c' \<le> indexPrev_of this"
      by (simp add: keys_inv_def)
    with f(1) f(3) show ?thesis by simp
  qed
qed

lemma stringify_after_call:
  assumes "keys_inv this" and "selector_inv (selector this)" and "call c value this = (Normal, this')"
  shows "fst (stringify this') = fst (stringify this) @ fragment c value"
proof -
  note f = call_Normal_order [OF assms(3)]
  have "\<forall>k'\<in>fst ` set (selector this). k' \<le> slot c"
  proof
    fix k' assume k: "k' \<in> fst ` set (selector this)"
    with assms(2) have "k' \<in> set (map slot canonical_order)"
      by (auto simp add: selector_inv_def)
    then obtain c' where c': "k' = slot c'" by auto
    from k have "map_of (selector this) k' \<noteq> None"
      by (simp add: map_of_eq_None_iff)
    with c' have "stored this c' \<noteq> None" by (simp add: stored_def get_prop_def)
    with assms(1) have "canonical_index c' \<le> indexPrev_of this" by (simp add: keys_inv_def)
    with f(1) have "canonical_index c' \<le> canonical_index c" by simp
    with slot_index [of c] slot_index [of c'] c' show "k' \<le> slot c" by simp
  qed
  with assms(2) have "concat (map snd (set_prop (selector this) (slot c)
        ((case map_of (selector this) (slot c) of None \<Rightarrow> [] | Some old \<Rightarrow> old) @ fragment c value)))
      = concat (map snd (selector this)) @ fragment c value"
    by (intro set_prop_last) (simp_all add: selector_inv_def)
  with call_Normal_selector [OF assms(3)] show ?thesis
    by (simp add: stringify_def Object_values_def join_empty stored_def get_prop_def)
qed

lemma keys_inv_new: "keys_inv new_NEWcssSelectorBuilder"
  by (simp add: keys_inv_def new_NEWcssSelectorBuilder_def stored_def get_prop_def)

lemma stringify_chain:
  "keys_inv this \<Longrightarrow> selector_inv (selector this) \<Longrightarrow> chain calls this = (Normal, this')
     \<Longrightarrow> fst (stringify this') = fst (stringify this) @ concat (map (\<lambda>(c, v). fragment c v) calls)"
proof (induction calls arbitrary: this)
  case Nil
  then show ?case by simp
next
  case (Cons a calls)
  obtain c v where a: "a = (c, v)" by (cases a)
  from Cons.prems(3) a obtain this1 where 1: "call c v this = (Normal, this1)"
      "chain calls this1 = (Normal, this')"
    by (auto split: prod.splits completion.splits)
  from keys_inv_call_Normal [OF Cons.prems(1) 1(1)] have k: "keys_inv this1" .
  from selector_inv_call [OF Cons.prems(2), of c v] 1(1) have s: "selector_inv (selector this1)"
    by simp
  from Cons.IH [OF k s 1(2)] stringify_after_call [OF Cons.prems(1,2) 1(1)] a
  show ?case by simp
qed

text \<open>
  Claim C3.  On a chain built from a new builder by a sequence of category calls that
  all succeeded, \<^verbatim>\<open>stringify\<close> returns the stored fragments concatenated in canonical
  category order, categories without a fragment being skipped, which is the
  concatenation of the fragments of the calls in the order of the calls; it leaves the
  chain unchanged, so a second call returns the same string.  The documented example
  \<^verbatim>\<open>element('a').attr('href$=".png"').pseudoClass('focus')\<close> gives \<^verbatim>\<open>a[href$=".png"]:focus\<close>.
\<close>

theorem C3_stringify_canonical:
  "(chain calls new_NEWcssSelectorBuilder = (Normal, this) \<longrightarrow>
      stringify this = (concat (List.map_filter (stored this) canonical_order), this)
      \<and> fst (stringify this) = concat (map (\<lambda>(c, v). fragment c v) calls)
      \<and> stringify (snd (stringify this)) = stringify this)
   \<and> chain [(Element, ''a''), (Attr, ''href$=\".png\"''), (PseudoClass, ''focus'')] new_NEWcssSelectorBuilder
       = (Normal, \<lparr>selector = [(1, ''a''), (4, ''[href$=\".png\"]''), (5, '':focus'')],
                   order = [''element'', ''attr'', ''pseudoClass'']\<rparr>)
   \<and> fst (stringify \<lparr>selector = [(1, ''a''), (4, ''[href$=\".png\"]''), (5, '':focus'')],
                   order = [''element'', ''attr'', ''pseudoClass'']\<rparr>) = ''a[href$=\".png\"]:focus''"
proof -
  have 1: "stringify this = (concat (List.map_filter (stored this) canonical_order), this)
      \<and> fst (stringify this) = concat (map (\<lambda>(c, v). fragment c v) calls)
      \<and> stringify (snd (stringify this)) = stringify this"
    if "chain calls new_NEWcssSelectorBuilder = (Normal, this)"
  proof -
    from selector_inv_chain [OF selector_inv_new that]
    have "stringify this = (concat (List.map_filter (stored this) canonical_order), this)"
      by (rule stringify_canonical)
    moreover from stringify_chain [OF keys_inv_new selector_inv_new that]
    have "fst (stringify this) = concat (map (\<lambda>(c, v). fragment c v) calls)"
      by (simp add: stringify_def Object_values_def new_NEWcssSelectorBuilder_def)
    ultimately show ?thesis by simp
  qed
  have 2: "chain [(Element, ''a''), (Attr, ''href$=\".png\"''), (PseudoClass, ''focus'')] new_NEWcssSelectorBuilder
       = (Normal, \<lparr>selector = [(1, ''a''), (4, ''[href$=\".png\"]''), (5, '':focus'')],
                   order = [''element'', ''attr'', ''pseudoClass'']\<rparr>)"
    by (simp add: element_def attr_def pseudoClass_def check_def indexPrev_of_def prev_of_def
        new_NEWcssSelectorBuilder_def check_list_def get_prop_def)
  have 3: "fst (stringify \<lparr>selector = [(1, ''a''), (4, ''[href$=\".png\"]''), (5, '':focus'')],
                   order = [''element'', ''attr'', ''pseudoClass'']\<rparr>) = ''a[href$=\".png\"]:focus''"
    by (simp add: stringify_def Object_values_def)
  from 1 2 3 show ?thesis by blast
qed

theorem C3_witness:
  "chain [(Id, ''main''), (Class, ''container''), (Class, ''editable'')] new_NEWcssSelectorBuilder
     = (Normal, \<lparr>selector = [(2, ''#main''), (3, ''.container.editable'')], order = [''id'', ''class'']\<rparr>)
   \<and> stringify \<lparr>selector = [(2, ''#main''), (3, ''.container.editable'')], order = [''id'', ''class'']\<rparr>
     = (''#main.container.editable'',
        \<lparr>selector = [(2, ''#main''), (3, ''.container.editable'')], order = [''id'', ''class'']\<rparr>)"
proof -
  have 1: "chain [(Id, ''main''), (Class, ''container''), (Class, ''editable'')] new_NEWcssSelectorBuilder
     = (Normal, \<lparr>selector = [(2, ''#main''), (3, ''.container.editable'')], order = [''id'', ''class'']\<rparr>)"
    by (simp add: id_sel_def class_sel_def check_def indexPrev_of_def prev_of_def
        new_NEWcssSelectorBuilder_def check_list_def get_prop_def)
  have 2: "concat (List.map_filter
              (stored \<lparr>selector = [(2, ''#main''), (3, ''.container.editable'')], order = [''id'', ''class'']\<rparr>)
              canonical_order) = ''#main.container.editable''"
    by (simp add: List.map_filter_simps stored_def get_prop_def canonical_order_def)
  from C3_stringify_canonical [of "[(Id, ''main''), (Class, ''container''), (Class, ''editable'')]"
      "\<lparr>selector = [(2, ''#main''), (3, ''.container.editable'')], order = [''id'', ''class'']\<rparr>"] 1 2
  show ?thesis by simp
qed

lemma operand_piece:
  "operand_inv x \<Longrightarrow>
     (case operand_selector x of Some sel \<Rightarrow> cur @ [join [] (Object_values sel)] | None \<Rightarrow> cur)
       = cur @ operand_pieces x"
proof (cases x)
  case (Chain b)
  assume "operand_inv x"
  with Chain have "selector_inv (selector b)" by simp
  from stringify_canonical [OF this] Chain show ?thesis
    by (simp add: stringify_def)
next
  case Facade
  then show ?thesis by simp
qed

lemma token_piece: "(if truthy t then cur @ [the t] else cur) = cur @ token_pieces t"
  by (cases t) simp_all

text \<open>
  Claim C4, as amended.  \<^verbatim>\<open>combine(left, token, right)\<close> prepends to the pending
  sequence of the facade, in this order: for a chain operand \<^verbatim>\<open>left\<close> its fragments
  concatenated in canonical order (also when that string is empty), nothing for the
  facade as operand; the token when it is a non-empty string; the same for \<^verbatim>\<open>right\<close>.
  It returns the facade and does not drain the sequence.  \<^verbatim>\<open>stringify\<close> of the facade
  joins the pending sequence with single spaces, empties it and returns the joined
  string, so that a second \<^verbatim>\<open>stringify\<close> returns the empty string.
\<close>

theorem C4_combine_prepends:
  "(operand_inv left \<and> operand_inv right \<longrightarrow>
      combine left token right this
        = (Facade, this\<lparr>combiner := operand_pieces left @ token_pieces token @ operand_pieces right
                                        @ combiner this\<rparr>))
   \<and> facade_stringify this = (join '' '' (combiner this), this\<lparr>combiner := []\<rparr>)
   \<and> fst (facade_stringify (snd (facade_stringify this))) = []"
proof -
  have "combine left token right this
        = (Facade, this\<lparr>combiner := operand_pieces left @ token_pieces token @ operand_pieces right
                                        @ combiner this\<rparr>)"
    if "operand_inv left" "operand_inv right"
    unfolding combine_def Let_def
    by (simp only: token_piece operand_piece [OF that(1)] operand_piece [OF that(2)]) simp
  then show ?thesis
    by (simp add: facade_stringify_def)
qed

theorem C4_counterexample:
  "facade_call Element [] = (Normal, \<lparr>selector = [(1, [])], order = [''element'']\<rparr>)
   \<and> facade_call Element ''a'' = (Normal, \<lparr>selector = [(1, ''a'')], order = [''element'']\<rparr>)
   \<and> combine (Chain \<lparr>selector = [(1, [])], order = [''element'']\<rparr>) (Some ''+'')
              (Chain \<lparr>selector = [(1, ''a'')], order = [''element'']\<rparr>) cssSelectorBuilder_loaded
        = (Facade, \<lparr>combiner = [[], ''+'', ''a'']\<rparr>)
   \<and> pieces_as_specified (Chain \<lparr>selector = [(1, [])], order = [''element'']\<rparr>) (Some ''+'')
              (Chain \<lparr>selector = [(1, ''a'')], order = [''element'']\<rparr>) = [''+'', ''a'']
   \<and> fst (facade_stringify \<lparr>combiner = [[], ''+'', ''a'']\<rparr>) = '' + a''
   \<and> combine (Chain \<lparr>selector = [(1, ''a'')], order = [''element'']\<rparr>) (Some [])
              (Chain \<lparr>selector = [(1, ''a'')], order = [''element'']\<rparr>) cssSelectorBuilder_loaded
        = (Facade, \<lparr>combiner = [''a'', ''a'']\<rparr>)
   \<and> pieces_as_specified (Chain \<lparr>selector = [(1, ''a'')], order = [''element'']\<rparr>) (Some [])
              (Chain \<lparr>selector = [(1, ''a'')], order = [''element'']\<rparr>) = [''a'', [], ''a'']"
  by (simp add: facade_call_def element_def check_def indexPrev_of_def prev_of_def
      new_NEWcssSelectorBuilder_def check_list_def get_prop_def combine_def Object_values_def
      cssSelectorBuilder_loaded_def pieces_as_specified_def rendered_def stringify_def
      facade_stringify_def)

theorem C4_witness:
  "operand_inv (Chain \<lparr>selector = [(1, ''tr''), (5, '':nth-of-type(even)'')], order = [''element'', ''pseudoClass'']\<rparr>)
   \<and> operand_inv Facade
   \<and> combine (Chain \<lparr>selector = [(1, ''tr''), (5, '':nth-of-type(even)'')], order = [''element'', ''pseudoClass'']\<rparr>)
        (Some ''~'') Facade \<lparr>combiner = [''td'']\<rparr>
       = (Facade, \<lparr>combiner = [''tr:nth-of-type(even)'', ''~'', ''td'']\<rparr>)"
proof -
  have 1: "operand_inv (Chain \<lparr>selector = [(1, ''tr''), (5, '':nth-of-type(even)'')], order = [''element'', ''pseudoClass'']\<rparr>)"
    by (simp add: selector_inv_def canonical_order_def)
  have 2: "operand_inv Facade" by simp
  have 3: "operand_pieces (Chain \<lparr>selector = [(1, ''tr''), (5, '':nth-of-type(even)'')], order = [''element'', ''pseudoClass'']\<rparr>)
      = [''tr:nth-of-type(even)'']"
    by (simp add: List.map_filter_simps stored_def get_prop_def canonical_order_def)
  from C4_combine_prepends [of "Chain \<lparr>selector = [(1, ''tr''), (5, '':nth-of-type(even)'')], order = [''element'', ''pseudoClass'']\<rparr>"
      Facade "Some ''~''" "\<lparr>combiner = [''td'']\<rparr>"] 1 2 3
  show ?thesis by simp
qed

text \<open>The example of the source's documentation.\<close>

lemma documented_combination:
  "(let (tr, td) = (snd (chain [(PseudoClass, ''nth-of-type(even)'')] (snd (facade_call Element ''tr''))),
                    snd (chain [(PseudoClass, ''nth-of-type(even)'')] (snd (facade_call Element ''td''))));
        (inner, f1) = combine (Chain tr) (Some '' '') (Chain td) cssSelectorBuilder_loaded;
        table = snd (chain [(Id, ''data'')] (snd (facade_call Element ''table'')));
        (middle, f2) = combine (Chain table) (Some ''~'') inner f1;
        dv = snd (chain [(Id, ''main''), (Class, ''container''), (Class, ''draggable'')] (snd (facade_call Element ''div'')));
        (outer, f3) = combine (Chain dv) (Some ''+'') middle f2
    in facade_stringify f3)
   = (''div#main.container.draggable + table#data ~ tr:nth-of-type(even)   td:nth-of-type(even)'',
      \<lparr>combiner = []\<rparr>)"
  by (simp add: facade_call_def element_def id_sel_def class_sel_def pseudoClass_def check_def
      indexPrev_of_def prev_of_def new_NEWcssSelectorBuilder_def check_list_def get_prop_def
      combine_def Object_values_def cssSelectorBuilder_loaded_def facade_stringify_def)

section \<open>Properties of the JSON helpers\<close>

subsection \<open>Numbers\<close>






















subsection \<open>Strings\<close>






subsection \<open>Reading back the text of a syntax\<close>










subsection \<open>The value of the text of a value\<close>
















subsection \<open>The recursion does not reach the end of its fuel\<close>

lemma map_parsed_Parsed: "map_parsed g r = Parsed y rest \<longleftrightarrow> (\<exists>x. r = Parsed x rest \<and> y = g x)"
  by (cases r) auto

lemma map_parsed_Exhausted: "map_parsed g r = Exhausted \<longleftrightarrow> r = Exhausted"
  by (cases r) auto

lemma skip_ws_length: "length (skip_ws s) \<le> length s"
  by (induction s) simp_all

lemma skip_ws_Cons: "skip_ws s = c # cs \<Longrightarrow> length cs < length s"
  using skip_ws_length [of s] by simp

lemma parse_chars_consumes:
  "parse_chars cs = Parsed k rest \<Longrightarrow> length rest < length cs"
proof (induction cs arbitrary: k rest rule: length_induct)
  case (1 cs)
  show ?case
  proof (cases cs)
    case Nil
    with 1(2) show ?thesis by simp
  next
    case (Cons c cs')
    have step: "length rest' < Suc (length cs')"
      if "parse_chars ys = Parsed k' rest'" "length ys \<le> length cs'" for ys k' rest'
    proof -
      from that(2) Cons have "length ys < length cs" by simp
      with 1(1) that(1) have "length rest' < length ys" by blast
      with that(2) show ?thesis by simp
    qed
    from 1(2) show ?thesis
      unfolding Cons
      by (auto simp add: map_parsed_Parsed split: if_splits list.splits option.splits dest: step)
  qed
qed

lemma parse_chars_not_Exhausted: "parse_chars cs \<noteq> Exhausted"
proof (induction cs rule: length_induct)
  case (1 cs)
  show ?case
  proof (cases cs)
    case Nil
    then show ?thesis by simp
  next
    case outer: (Cons c cs')
    with 1 have step: "parse_chars ys \<noteq> Exhausted" if "length ys \<le> length cs'" for ys
      using that by simp
    show ?thesis
    proof (cases "c = code CHR 0x5C")
      case False
      then show ?thesis unfolding outer by (simp add: map_parsed_Exhausted step)
    next
      case True
      show ?thesis
      proof (cases cs')
        case Nil
        with True show ?thesis unfolding outer by simp
      next
        case (Cons e es)
        with step have inner: "parse_chars ys \<noteq> Exhausted" if "length ys \<le> length es" for ys
          using that by simp
        show ?thesis
        proof (cases "e = code CHR ''u''")
          case False
          with True show ?thesis unfolding outer Cons
            by (simp add: map_parsed_Exhausted inner split: option.splits)
        next
          case u: True
          with True show ?thesis unfolding outer Cons
            by (simp add: map_parsed_Exhausted inner split: list.splits option.splits)
        qed
      qed
    qed
  qed
qed

lemma dropWhile_length: "length (dropWhile P xs) \<le> length xs"
  by (induction xs) simp_all

lemma scan_fraction_length: "scan_fraction s = Some r \<Longrightarrow> length r \<le> length s"
proof -
  assume a: "scan_fraction s = Some r"
  have d: "length (dropWhile is_digit ds) \<le> Suc (Suc (length ds))" for ds :: js_string
    using dropWhile_length [of is_digit ds] by simp
  from a show ?thesis
    by (auto simp add: scan_fraction_def d split: list.splits if_splits)
qed

lemma scan_exponent_length: "scan_exponent s = Some r \<Longrightarrow> length r \<le> length s"
proof (cases s)
  case Nil
  assume "scan_exponent s = Some r"
  with Nil show ?thesis by (simp add: scan_exponent_def)
next
  case (Cons c cs)
  assume a: "scan_exponent s = Some r"
  show ?thesis
  proof (cases "c = code CHR ''e'' \<or> c = code CHR ''E''")
    case False
    with Cons a show ?thesis by (auto simp add: scan_exponent_def)
  next
    case True
    define t where "t = (case cs of [] \<Rightarrow> [] | g # gs \<Rightarrow> if g = code CHR ''+'' \<or> g = code CHR ''-'' then gs else cs)"
    have "length t \<le> length cs" by (cases cs) (simp_all add: t_def)
    moreover from True Cons a obtain d ds where "t = d # ds" "r = dropWhile is_digit ds"
      by (cases t) (auto simp add: scan_exponent_def t_def split: if_splits)
    ultimately show ?thesis
      using Cons dropWhile_length [of is_digit ds] by simp
  qed
qed

lemma scan_number_length: "scan_number s = Some r \<Longrightarrow> length r < length s"
proof -
  assume a: "scan_number s = Some r"
  define t where "t = (case s of [] \<Rightarrow> [] | g # gs \<Rightarrow> if g = code CHR ''-'' then gs else s)"
  have l: "length t \<le> length s" by (cases s) (simp_all add: t_def)
  from a obtain c cs r1 where t: "t = c # cs"
      "scan_fraction (if c = code CHR ''0'' then cs else dropWhile is_digit cs) = Some r1"
      "scan_exponent r1 = Some r"
    by (cases t) (auto simp add: scan_number_def t_def split: if_splits option.splits)
  have "length r1 \<le> length cs"
  proof (cases "c = code CHR ''0''")
    case True
    with t(2) show ?thesis by (simp add: scan_fraction_length)
  next
    case False
    with t(2) have "length r1 \<le> length (dropWhile is_digit cs)"
      by (simp add: scan_fraction_length)
    with dropWhile_length [of is_digit cs] show ?thesis by simp
  qed
  moreover from t(3) have "length r \<le> length r1" by (rule scan_exponent_length)
  ultimately show ?thesis using l t(1) by simp
qed

lemma parse_number_consumes: "parse_number s = Parsed l rest \<Longrightarrow> length rest < length s"
  by (auto simp add: parse_number_def scan_number_length split: option.splits)

lemma parse_number_not_Exhausted: "parse_number s \<noteq> Exhausted"
  by (simp add: parse_number_def split: option.splits)

lemma parse_consumes:
  "(\<forall>s t rest. parse_value f s = Parsed t rest \<longrightarrow> length rest < length s)
   \<and> (\<forall>s ts rest. parse_elements f s = Parsed ts rest \<longrightarrow> length rest < length s)
   \<and> (\<forall>s ms rest. parse_members f s = Parsed ms rest \<longrightarrow> length rest < length s)"
proof (induction f)
  case 0
  show ?case by simp
next
  case (Suc f)
  then have v: "\<And>s t rest. parse_value f s = Parsed t rest \<Longrightarrow> length rest < length s"
    and e: "\<And>s ts rest. parse_elements f s = Parsed ts rest \<Longrightarrow> length rest < length s"
    and m: "\<And>s ms rest. parse_members f s = Parsed ms rest \<Longrightarrow> length rest < length s"
    by blast+
  have 1: "length rest < length s" if p: "parse_value (Suc f) s = Parsed t rest" for s t rest
  proof -
    from p obtain c cs where c: "skip_ws s = c # cs"
      by (cases "skip_ws s") simp_all
    note l = skip_ws_Cons [OF c]
    consider (lit) "c = code CHR ''n'' \<or> c = code CHR ''t'' \<or> c = code CHR ''f''"
      | (str) "c = code CHR 0x22"
      | (arr) "c = code CHR ''[''"
      | (obj) "c = code CHR ''{''"
      | (num) "c \<noteq> code CHR ''n''" "c \<noteq> code CHR ''t''" "c \<noteq> code CHR ''f''" "c \<noteq> code CHR 0x22"
          "c \<noteq> code CHR ''[''" "c \<noteq> code CHR ''{''"
      by blast
    then show ?thesis
    proof cases
      case lit
      with p c l show ?thesis by (auto split: if_splits)
    next
      case str
      with p c have "\<exists>k. parse_chars cs = Parsed k rest" by (auto simp add: map_parsed_Parsed)
      with l show ?thesis by (auto dest: parse_chars_consumes)
    next
      case arr
      with p c obtain d ds where d: "skip_ws cs = d # ds"
        by (cases "skip_ws cs") simp_all
      note l2 = skip_ws_Cons [OF d]
      show ?thesis
      proof (cases "d = code CHR '']''")
        case True
        with p c arr d l l2 show ?thesis by simp
      next
        case False
        with p c arr d have "\<exists>ts. parse_elements f (d # ds) = Parsed ts rest"
          by (auto simp add: map_parsed_Parsed)
        then have "length rest < length (d # ds)" by (auto dest: e)
        with l l2 show ?thesis by simp
      qed
    next
      case obj
      with p c obtain d ds where d: "skip_ws cs = d # ds"
        by (cases "skip_ws cs") simp_all
      note l2 = skip_ws_Cons [OF d]
      show ?thesis
      proof (cases "d = code CHR ''}''")
        case True
        with p c obj d l l2 show ?thesis by simp
      next
        case False
        with p c obj d have "\<exists>ms. parse_members f (d # ds) = Parsed ms rest"
          by (auto simp add: map_parsed_Parsed)
        then have "length rest < length (d # ds)" by (auto dest: m)
        with l l2 show ?thesis by simp
      qed
    next
      case num
      with p c have "\<exists>n. parse_number (c # cs) = Parsed n rest"
        by (auto simp add: map_parsed_Parsed)
      then have "length rest < length (c # cs)" by (auto dest: parse_number_consumes)
      with l show ?thesis by simp
    qed
  qed
  have 2: "length rest < length s" if p: "parse_elements (Suc f) s = Parsed ts rest" for s ts rest
  proof -
    from p obtain x r where x: "parse_value f s = Parsed x r"
      by (cases "parse_value f s") simp_all
    from p x obtain c cs where c: "skip_ws r = c # cs"
      by (cases "skip_ws r") simp_all
    from v [OF x] skip_ws_Cons [OF c] have l: "length cs < length s" by simp
    show ?thesis
    proof (cases "c = code CHR '',''")
      case True
      with p x c have "\<exists>ts'. parse_elements f cs = Parsed ts' rest"
        by (auto simp add: map_parsed_Parsed)
      then have "length rest < length cs" by (auto dest: e)
      with l show ?thesis by simp
    next
      case False
      with p x c l show ?thesis by (auto split: if_splits)
    qed
  qed
  have 3: "length rest < length s" if p: "parse_members (Suc f) s = Parsed ms rest" for s ms rest
  proof -
    from p obtain q qs where q: "skip_ws s = q # qs"
      by (cases "skip_ws s") simp_all
    from p q have q2: "q = code CHR 0x22" by (auto split: if_splits)
    from p q q2 obtain key r where k: "parse_chars qs = Parsed key r"
      by (cases "parse_chars qs") simp_all
    from p q q2 k obtain c cs where c: "skip_ws r = c # cs"
      by (cases "skip_ws r") simp_all
    from p q q2 k c have c2: "c = code CHR '':''" by (auto split: if_splits)
    from p q q2 k c c2 obtain x r1 where x: "parse_value f cs = Parsed x r1"
      by (cases "parse_value f cs") simp_all
    from p q q2 k c c2 x obtain d ds where d: "skip_ws r1 = d # ds"
      by (cases "skip_ws r1") simp_all
    from skip_ws_Cons [OF q] parse_chars_consumes [OF k] skip_ws_Cons [OF c] v [OF x] skip_ws_Cons [OF d]
    have l: "length ds < length s" by simp
    show ?thesis
    proof (cases "d = code CHR '',''")
      case True
      with p q q2 k c c2 x d have "\<exists>ms'. parse_members f ds = Parsed ms' rest"
        by (auto simp add: map_parsed_Parsed)
      then have "length rest < length ds" by (auto dest: m)
      with l show ?thesis by simp
    next
      case False
      with p q q2 k c c2 x d l show ?thesis by (auto split: if_splits)
    qed
  qed
  from 1 2 3 show ?case by blast
qed

lemma parse_value_consumes: "parse_value f s = Parsed t rest \<Longrightarrow> length rest < length s"
  using parse_consumes [of f] by blast

lemma parse_not_Exhausted:
  "(\<forall>s. 2 * length s + 1 \<le> f \<longrightarrow> parse_value f s \<noteq> Exhausted)
   \<and> (\<forall>s. 2 * length s + 2 \<le> f \<longrightarrow> parse_elements f s \<noteq> Exhausted)
   \<and> (\<forall>s. 2 * length s + 2 \<le> f \<longrightarrow> parse_members f s \<noteq> Exhausted)"
proof (induction f)
  case 0
  show ?case by simp
next
  case (Suc f)
  then have v: "\<And>s. 2 * length s + 1 \<le> f \<Longrightarrow> parse_value f s \<noteq> Exhausted"
    and e: "\<And>s. 2 * length s + 2 \<le> f \<Longrightarrow> parse_elements f s \<noteq> Exhausted"
    and m: "\<And>s. 2 * length s + 2 \<le> f \<Longrightarrow> parse_members f s \<noteq> Exhausted"
    by blast+
  have 1: "parse_value (Suc f) s \<noteq> Exhausted" if b: "2 * length s + 1 \<le> Suc f" for s
  proof (cases "skip_ws s")
    case Nil
    then show ?thesis by simp
  next
    case (Cons c cs)
    note l = skip_ws_Cons [OF Cons]
    show ?thesis
    proof (cases "skip_ws cs")
      case Nil
      with Cons show ?thesis
        by (simp add: map_parsed_Exhausted parse_chars_not_Exhausted parse_number_not_Exhausted)
    next
      case inner: (Cons d ds)
      from skip_ws_Cons [OF inner] l b have "2 * length (d # ds) + 2 \<le> f" by simp
      then have "parse_elements f (d # ds) \<noteq> Exhausted" "parse_members f (d # ds) \<noteq> Exhausted"
        by (rule e, rule m)
      with Cons inner show ?thesis
        by (simp add: map_parsed_Exhausted parse_chars_not_Exhausted parse_number_not_Exhausted)
    qed
  qed
  have 2: "parse_elements (Suc f) s \<noteq> Exhausted" if b: "2 * length s + 2 \<le> Suc f" for s
  proof (cases "parse_value f s")
    case (Parsed x r)
    show ?thesis
    proof (cases "skip_ws r")
      case Nil
      with Parsed show ?thesis by simp
    next
      case (Cons c cs)
      from parse_value_consumes [OF Parsed] skip_ws_Cons [OF Cons] b
      have "2 * length cs + 2 \<le> f" by simp
      then have "parse_elements f cs \<noteq> Exhausted" by (rule e)
      with Parsed Cons show ?thesis by (simp add: map_parsed_Exhausted)
    qed
  next
    case Malformed
    then show ?thesis by simp
  next
    case Exhausted
    moreover from b have "parse_value f s \<noteq> Exhausted" by (intro v) simp
    ultimately show ?thesis by simp
  qed
  have 3: "parse_members (Suc f) s \<noteq> Exhausted" if b: "2 * length s + 2 \<le> Suc f" for s
  proof (cases "skip_ws s")
    case Nil
    then show ?thesis by simp
  next
    case (Cons q qs)
    show ?thesis
    proof (cases "parse_chars qs")
      case (Parsed key r)
      show ?thesis
      proof (cases "skip_ws r")
        case Nil
        with Cons Parsed show ?thesis by simp
      next
        case colon: (Cons c cs)
        from skip_ws_Cons [OF Cons] parse_chars_consumes [OF Parsed] skip_ws_Cons [OF colon] b
        have l: "2 * length cs + 4 \<le> f" by simp
        show ?thesis
        proof (cases "parse_value f cs")
          case val: (Parsed x r1)
          show ?thesis
          proof (cases "skip_ws r1")
            case Nil
            with Cons Parsed colon val show ?thesis by simp
          next
            case next_member: (Cons d ds)
            from parse_value_consumes [OF val] skip_ws_Cons [OF next_member] l
            have "2 * length ds + 2 \<le> f" by simp
            then have "parse_members f ds \<noteq> Exhausted" by (rule m)
            with Cons Parsed colon val next_member show ?thesis
              by (simp add: map_parsed_Exhausted)
          qed
        next
          case Malformed
          with Cons Parsed colon show ?thesis by simp
        next
          case Exhausted
          moreover from l have "parse_value f cs \<noteq> Exhausted" by (intro v) simp
          ultimately show ?thesis by simp
        qed
      qed
    next
      case Malformed
      with Cons show ?thesis by simp
    next
      case Exhausted
      with parse_chars_not_Exhausted [of qs] show ?thesis by simp
    qed
  qed
  from 1 2 3 show ?case by blast
qed

lemma JSON_syntax_total: "JSON_syntax text \<noteq> Exhausted"
proof -
  from parse_not_Exhausted [of "Suc (2 * length text)"]
  have "parse_value (Suc (2 * length text)) text \<noteq> Exhausted" by simp
  then show ?thesis
    by (simp add: JSON_syntax_def split: parsed.splits)
qed

subsection \<open>The claims on \<^verbatim>\<open>getJSON\<close> and \<^verbatim>\<open>fromJSON\<close>\<close>

lemmas parse_numeral =
  parse_value.simps(2) [of "pred_numeral k" for k, folded numeral_eq_Suc]
  parse_elements.simps(2) [of "pred_numeral k" for k, folded numeral_eq_Suc]
  parse_members.simps(2) [of "pred_numeral k" for k, folded numeral_eq_Suc]

lemmas json_eval = JSON_parse_def JSON_parse_with_def JSON_syntax_def valid_JSON_def
  parse_numeral is_ws_def parse_number_def scan_number_def scan_fraction_def scan_exponent_def
  is_digit_def digit_value_def utf16_def hex_value_def escape_value_def
  integers_def integer_of_literal_def safe_integer_def
  object_of_members_def define_property_def array_index_def fromJSON_def fromJSON_with_def






lemma not_valid_JSON: "\<not> valid_JSON text \<longleftrightarrow> JSON_syntax text = Malformed"
  using JSON_syntax_total [of "text"]
  by (cases "JSON_syntax text") (simp_all add: valid_JSON_def)

lemma JSON_parse_with_SyntaxError:
  "JSON_parse_with host text = Some (Inl e) \<longleftrightarrow> e = SyntaxError \<and> \<not> valid_JSON text"
  by (auto simp add: JSON_parse_with_def not_valid_JSON split: parsed.splits option.splits)

lemma JSON_parse_with_invalid:
  "\<not> valid_JSON text \<Longrightarrow> JSON_parse_with host text = Some (Inl SyntaxError)"
  by (simp add: JSON_parse_with_SyntaxError)

text \<open>
  Claim C8.  A text is valid JSON when it is one value of the JSON grammar between white
  space (\<open>valid_JSON\<close>).  On every text that is not valid JSON, \<^verbatim>\<open>fromJSON\<close> throws the
  \<^verbatim>\<open>SyntaxError\<close> of \<^verbatim>\<open>JSON.parse\<close> (the specification's ParseError), for every prototype
  argument and every host of numbers, and the outcome is the same whatever
  \<^verbatim>\<open>Object.setPrototypeOf\<close> would have done: the call is not reached.  \<^verbatim>\<open>JSON.parse\<close> throws
  on these texts only, and nothing but a \<^verbatim>\<open>SyntaxError\<close>.  More generally \<^verbatim>\<open>fromJSON\<close>
  passes on the \<^verbatim>\<open>SyntaxError\<close> of every parser in the place of \<^verbatim>\<open>JSON.parse\<close>.
\<close>

theorem C8_parse_error:
  "(\<not> valid_JSON text \<longrightarrow>
      fromJSON_with (JSON_parse_with host) setPrototypeOf (Proto :: 'p) text = Some (Inl SyntaxError)
      \<and> fromJSON Proto' text = Some (Inl SyntaxError))
   \<and> ((JSON_parse_with host text :: (js_error + ('n, 'p) js_value) option) = Some (Inl e))
       = (e = SyntaxError \<and> \<not> valid_JSON text)
   \<and> (parse text = Some (Inl SyntaxError)
      \<longrightarrow> fromJSON_with parse setPrototypeOf' Proto'' text = Some (Inl SyntaxError))"
  by (simp add: fromJSON_def fromJSON_with_def JSON_parse_def JSON_parse_with_SyntaxError
      JSON_parse_with_invalid)

theorem C8_witness:
  "\<not> valid_JSON (utf16 ''{radius:10}'')
   \<and> fromJSON ''Circle.prototype'' (utf16 ''{radius:10}'') = Some (Inl SyntaxError)
   \<and> fromJSON_with (JSON_parse_with integers)
         (\<lambda>object proto. Inr (JString (utf16 ''attached'') :: (int, string) js_value))
         ''Circle.prototype'' (utf16 ''{radius:10}'')
       = Some (Inl SyntaxError)
   \<and> \<not> valid_JSON (utf16 ''1.5x'')
   \<and> fromJSON ''Circle.prototype'' (utf16 ''1.5x'') = Some (Inl SyntaxError)"
proof -
  have 1: "\<not> valid_JSON (utf16 ''{radius:10}'')"
    by (simp add: json_eval)
  have 2: "\<not> valid_JSON (utf16 ''1.5x'')"
    by (simp add: json_eval)
  have 3: "(JSON_parse (utf16 ''{radius:10}'') :: (js_error + (int, string) js_value) option)
      = Some (Inl SyntaxError)"
    by (simp add: json_eval)
  from C8_parse_error [of "utf16 ''{radius:10}''" integers
      "\<lambda>object proto. Inr (JString (utf16 ''attached'') :: (int, string) js_value)"
      "''Circle.prototype''" "''Circle.prototype''" SyntaxError JSON_parse
      "Object_setPrototypeOf" "''Circle.prototype''"]
    C8_parse_error [of "utf16 ''1.5x''" integers
      "Object_setPrototypeOf :: (int, string) js_value \<Rightarrow> string \<Rightarrow> js_error + (int, string) js_value"
      "''Circle.prototype''" "''Circle.prototype''" SyntaxError JSON_parse
      "Object_setPrototypeOf" "''Circle.prototype''"]
    1 2 3
  show ?thesis by simp
qed

text \<open>
  Claim C10.  A valid JSON text that does not encode an object is not turned into an
  object with the prototype attached: when the text parses to \<^verbatim>\<open>null\<close> (as the text
  \<^verbatim>\<open>null\<close> does) \<^verbatim>\<open>fromJSON\<close> throws a \<^verbatim>\<open>TypeError\<close>, which is not the \<^verbatim>\<open>SyntaxError\<close> of the
  parser; when it parses to a number, a string or a boolean (as the texts \<^verbatim>\<open>42\<close>,
  \<^verbatim>\<open>"abc"\<close>, \<^verbatim>\<open>true\<close> and \<^verbatim>\<open>false\<close> do), \<^verbatim>\<open>fromJSON\<close> returns that primitive, which has no
  prototype slot.  The first two parts hold for every parser in the place of
  \<^verbatim>\<open>JSON.parse\<close>.
\<close>

theorem C10_non_object_json:
  "(parse text = Some (Inr JNull)
      \<longrightarrow> fromJSON_with parse Object_setPrototypeOf Proto text = Some (Inl TypeError))
   \<and> (parse text = Some (Inr v) \<and> \<not> is_object v \<and> v \<noteq> JNull
      \<longrightarrow> fromJSON_with parse Object_setPrototypeOf Proto text = Some (Inr v) \<and> prototype_of v = None)
   \<and> TypeError \<noteq> SyntaxError
   \<and> fromJSON Proto (utf16 ''null'') = Some (Inl TypeError)
   \<and> fromJSON Proto (utf16 ''42'') = Some (Inr (JNumber 42))
   \<and> fromJSON Proto (utf16 ''\"abc\"'') = Some (Inr (JString (utf16 ''abc'')))
   \<and> fromJSON Proto (utf16 ''true'') = Some (Inr (JBoolean True))
   \<and> fromJSON Proto (utf16 ''false'') = Some (Inr (JBoolean False))"
proof -
  have 1: "fromJSON_with parse Object_setPrototypeOf Proto text = Some (Inr v) \<and> prototype_of v = None"
    if "parse text = Some (Inr v)" "\<not> is_object v" "v \<noteq> JNull"
    using that by (cases v) (simp_all add: fromJSON_with_def)
  have 2: "fromJSON_with parse Object_setPrototypeOf Proto text = Some (Inl TypeError)"
    if "parse text = Some (Inr JNull)"
    using that by (simp add: fromJSON_with_def)
  have 3: "fromJSON Proto (utf16 ''null'') = Some (Inl TypeError)"
    "fromJSON Proto (utf16 ''42'') = Some (Inr (JNumber 42))"
    "fromJSON Proto (utf16 ''\"abc\"'') = Some (Inr (JString (utf16 ''abc'')))"
    "fromJSON Proto (utf16 ''true'') = Some (Inr (JBoolean True))"
    "fromJSON Proto (utf16 ''false'') = Some (Inr (JBoolean False))"
    by (simp_all add: json_eval)
  from 1 2 3 show ?thesis by simp
qed

theorem C10_witness:
  "(JSON_parse (utf16 '' null '') :: (js_error + (int, string) js_value) option) = Some (Inr JNull)
   \<and> fromJSON ''Circle.prototype'' (utf16 '' null '') = Some (Inl TypeError)
   \<and> (JSON_parse (utf16 ''-7'') :: (js_error + (int, string) js_value) option) = Some (Inr (JNumber (- 7)))
   \<and> fromJSON ''Circle.prototype'' (utf16 ''-7'') = Some (Inr (JNumber (- 7)))"
proof -
  have 1: "(JSON_parse (utf16 '' null '') :: (js_error + (int, string) js_value) option) = Some (Inr JNull)"
    by (simp add: json_eval)
  have 2: "(JSON_parse (utf16 ''-7'') :: (js_error + (int, string) js_value) option) = Some (Inr (JNumber (- 7)))"
    by (simp add: json_eval)
  from C10_non_object_json [of JSON_parse "utf16 '' null ''" "''Circle.prototype''" "JNull"]
    C10_non_object_json [of JSON_parse "utf16 ''-7''" "''Circle.prototype''" "JNumber (- 7)"] 1 2
  show ?thesis by (simp add: fromJSON_def)
qed

end
